theory Spec2Isabelle
  imports Main "HOL-Library.Sublist" "HOL-Library.AList"
begin

section \<open>Statement classifier (lib/utils.ts)\<close>

text \<open>
  A JavaScript string is a sequence of 16-bit code units. A statement is modelled as a
  \<^typ>\<open>string\<close>, one \<^typ>\<open>char\<close> per code unit, so the statements of the model are those
  whose code units are below 256 (ASCII and Latin-1). On these the two library calls of
  the classifier are written out in full. \<open>trim\<close> strips white space and line terminators
  from both ends: of the code units below 256 these are TAB, LF, VT, FF, CR, SPACE and the
  no-break space U+00A0.
\<close>

definition isWhiteSpace :: "char \<Rightarrow> bool" where
  "isWhiteSpace c =
     (c \<in> set [CHR 0x09, CHR 0x0A, CHR 0x0B, CHR 0x0C, CHR 0x0D, CHR 0x20, CHR 0xA0])"

definition trim :: "string \<Rightarrow> string" where
  "trim s = rev (dropWhile isWhiteSpace (rev (dropWhile isWhiteSpace s)))"

text \<open>
  \<open>toUpperCase\<close> replaces every character by its upper-case form, which for three
  characters below 256 is not one code unit below 256: the sharp s (U+00DF) becomes
  \<open>SS\<close>, the micro sign (U+00B5) becomes U+039C and y with diaeresis (U+00FF) becomes
  U+0178. The small letters \<open>a\<close> to \<open>z\<close> and U+00E0 to U+00FE, the division sign U+00F7
  apart, move down by 32; everything else stays. So the upper-cased statement is a list of
  code units as numbers, and the keywords it is compared with are the code units of their
  letters.
\<close>

definition upperOf :: "char \<Rightarrow> nat list" where
  "upperOf c =
     (let n = (of_char c :: nat) in
      if 97 \<le> n \<and> n \<le> 122 then [n - 32]
      else if n = 181 then [924]
      else if n = 223 then [83, 83]
      else if 224 \<le> n \<and> n \<le> 254 \<and> n \<noteq> 247 then [n - 32]
      else if n = 255 then [376]
      else [n])"

definition toUpperCase :: "string \<Rightarrow> nat list" where
  "toUpperCase s = concat (map upperOf s)"

definition codeUnits :: "string \<Rightarrow> nat list" where
  "codeUnits s = map of_char s"

text \<open>\<open>s.startsWith(p)\<close>: the first \<open>p.length\<close> code units of \<open>s\<close> are \<open>p\<close>.\<close>

definition startsWith :: "'a list \<Rightarrow> 'a list \<Rightarrow> bool" where
  "startsWith s p = (take (length p) s = p)"

text \<open>\<open>s.includes(p)\<close>: \<open>p\<close> occurs at some position of \<open>s\<close>, searched from the left.\<close>

fun includesStr :: "'a list \<Rightarrow> 'a list \<Rightarrow> bool" where
  "includesStr [] p = startsWith [] p"
| "includesStr (c # s) p = (startsWith (c # s) p \<or> includesStr s p)"

text \<open>The return expression of \<open>isReadOnlyQuery\<close>, on the normalised statement.\<close>

definition readOnlyNormalized :: "nat list \<Rightarrow> bool" where
  "readOnlyNormalized normalizedSql =
     (startsWith normalizedSql (codeUnits ''SELECT'') \<or>
      startsWith normalizedSql (codeUnits ''WITH'') \<or>
      startsWith normalizedSql (codeUnits ''EXPLAIN'') \<or>
      (startsWith normalizedSql (codeUnits ''SHOW'') \<and>
       \<not> includesStr normalizedSql (codeUnits ''CREATE'')))"

definition isReadOnlyQuery :: "string \<Rightarrow> bool" where
  "isReadOnlyQuery sql = readOnlyNormalized (toUpperCase (trim sql))"

text \<open>
  The policy in the specification's words, said without the two library calls. The
  trimmed statement is what is left of the statement between a run of white space at its
  beginning and a run of white space at its end, and neither begins nor ends with white
  space. The statement is case-normalised by putting, for each of its characters in turn,
  the upper-case form of that character. A statement begins with a keyword when it is that
  keyword followed by some rest, and contains a keyword when the keyword stands between
  some beginning and some rest.
\<close>

definition trimmedOf :: "string \<Rightarrow> string \<Rightarrow> bool" where
  "trimmedOf s t =
     (\<exists>before rest. s = before @ t @ rest \<and>
        list_all isWhiteSpace before \<and> list_all isWhiteSpace rest \<and>
        (t = [] \<or> (\<not> isWhiteSpace (hd t) \<and> \<not> isWhiteSpace (last t))))"

definition caseNormalizedOf :: "string \<Rightarrow> nat list \<Rightarrow> bool" where
  "caseNormalizedOf t n =
     (\<exists>pieces. list_all2 (\<lambda>c p. p = upperOf c) t pieces \<and> n = concat pieces)"

definition beginsWith :: "'a list \<Rightarrow> 'a list \<Rightarrow> bool" where
  "beginsWith s kw = (\<exists>rest. s = kw @ rest)"

definition containsAnywhere :: "'a list \<Rightarrow> 'a list \<Rightarrow> bool" where
  "containsAnywhere s kw = (\<exists>before rest. s = before @ kw @ rest)"

definition specReadOnly :: "string \<Rightarrow> bool" where
  "specReadOnly s =
     (\<exists>t n. trimmedOf s t \<and> caseNormalizedOf t n \<and>
        (beginsWith n (codeUnits ''SELECT'') \<or> beginsWith n (codeUnits ''WITH'') \<or>
         beginsWith n (codeUnits ''EXPLAIN'') \<or>
         (beginsWith n (codeUnits ''SHOW'') \<and> \<not> containsAnywhere n (codeUnits ''CREATE''))))"

section \<open>Tracked transactions, pooled connections and the registry\<close>

text \<open>
  \<open>TrackedTransaction\<close> (lib/types.ts). The field \<open>id\<close> is \<open>tx_id\<close> here; the pooled
  client is named by a number. The entries are JavaScript objects: the registry and every
  handler that looked an entry up hold a reference to the same object, so the objects
  live in a \<open>heap\<close> and are named by their address.
\<close>

datatype tx_state = Active | Terminating

record TrackedTransaction =
  tx_id :: string
  client :: nat
  startTime :: int
  sql :: string
  state :: tx_state
  released :: bool

text \<open>
  What the process does to the pool is recorded in order: a connection handed out by
  \<open>pool.connect()\<close>, a statement passed to \<open>client.query\<close>, a call of \<open>client.release()\<close>.
\<close>

datatype event = Acquire nat | Query nat string | Release nat

text \<open>
  \<open>activeTransactions\<close> is the \<open>Map\<close> of the \<open>TransactionManager\<close>, in insertion order,
  from identifier to the address of the entry.
\<close>

record world =
  activeTransactions :: "(string \<times> nat) list"
  heap :: "nat \<Rightarrow> TrackedTransaction"
  nextRef :: nat
  trace :: "event list"

definition noTransaction :: TrackedTransaction where
  "noTransaction =
     \<lparr>tx_id = [], client = 0, startTime = 0, sql = [], state = Active, released = False\<rparr>"

definition emptyWorld :: world where
  "emptyWorld = \<lparr>activeTransactions = [], heap = (\<lambda>_. noTransaction), nextRef = 0, trace = []\<rparr>"

definition record_event :: "event \<Rightarrow> world \<Rightarrow> world" where
  "record_event e w = w\<lparr>trace := trace w @ [e]\<rparr>"

text \<open>
  \<open>safelyReleaseClient\<close> (lib/utils.ts) calls \<open>client.release()\<close> and swallows whatever
  it throws, so for the caller it always returns.
\<close>

definition safelyReleaseClient :: "nat \<Rightarrow> world \<Rightarrow> world" where
  "safelyReleaseClient c w = record_event (Release c) w"

definition query :: "nat \<Rightarrow> string \<Rightarrow> world \<Rightarrow> world" where
  "query c text w = record_event (Query c text) w"

definition releaseCount :: "nat \<Rightarrow> world \<Rightarrow> nat" where
  "releaseCount c w = length (filter (\<lambda>e. e = Release c) (trace w))"

subsection \<open>TransactionManager (lib/transaction-manager.ts)\<close>

text \<open>
  \<open>addTransaction\<close> builds a new object and \<open>set\<close>s it under the identifier: an
  identifier already in the \<open>Map\<close> keeps its place and gets the new object, a new one goes
  last. \<open>timeNow\<close> is what \<open>Date.now()\<close> returns.
\<close>

definition addTransaction :: "int \<Rightarrow> string \<Rightarrow> nat \<Rightarrow> string \<Rightarrow> world \<Rightarrow> world" where
  "addTransaction timeNow tid c sqlText w =
     w\<lparr>activeTransactions := AList.update tid (nextRef w) (activeTransactions w),
       heap := (heap w)(nextRef w :=
                 \<lparr>tx_id = tid, client = c, startTime = timeNow, sql = take 100 sqlText,
                  state = Active, released = False\<rparr>),
       nextRef := Suc (nextRef w)\<rparr>"

definition getTransaction :: "string \<Rightarrow> world \<Rightarrow> nat option" where
  "getTransaction tid w = map_of (activeTransactions w) tid"

definition removeTransaction :: "string \<Rightarrow> world \<Rightarrow> world" where
  "removeTransaction tid w = w\<lparr>activeTransactions := AList.delete tid (activeTransactions w)\<rparr>"

definition hasTransaction :: "string \<Rightarrow> world \<Rightarrow> bool" where
  "hasTransaction tid w = (tid \<in> set (map fst (activeTransactions w)))"

definition transactionCount :: "world \<Rightarrow> nat" where
  "transactionCount w = length (activeTransactions w)"

text \<open>
  \<open>set\<close> and \<open>delete\<close> keep the identifiers of the list distinct, so its length is the
  \<open>size\<close> of the \<open>Map\<close> and \<open>map_of\<close> is its \<open>get\<close>.
\<close>

text \<open>The two assignments to fields of an entry: \<open>released = true\<close>, \<open>state = 'terminating'\<close>.\<close>

definition markReleased :: "nat \<Rightarrow> world \<Rightarrow> world" where
  "markReleased r w = w\<lparr>heap := (heap w)(r := (heap w r)\<lparr>released := True\<rparr>)\<rparr>"

definition markTerminating :: "nat \<Rightarrow> world \<Rightarrow> world" where
  "markTerminating r w = w\<lparr>heap := (heap w)(r := (heap w r)\<lparr>state := Terminating\<rparr>)\<rparr>"

section \<open>Asynchronous handlers\<close>

text \<open>
  Every \<open>await\<close> is a suspension point. A handler runs from its entry, or from the
  \<open>await\<close> it is suspended at, up to its next \<open>await\<close> or its end without interruption;
  a \<open>task\<close> is either the end of a handler or the \<open>await\<close> it is suspended at, with the
  local variables that are still live. The awaited promise resolves (with a number: the
  client of \<open>pool.connect()\<close>, the row count of a statement) or rejects.
\<close>

datatype outcome = Resolved nat | Rejected

text \<open>
  The objects the handlers return, one constructor per \<open>return\<close> of the source.
  \<open>Pending\<close> carries \<open>transaction_id\<close>, \<open>rowCount\<close> and \<open>timeout_ms\<close>; \<open>StatementFailed\<close>
  carries the field \<open>sql\<close>; the lifecycle answers carry \<open>transaction_id\<close>.
  \<open>ErrorText\<close> is the answer the tool wrappers of index.ts build from a caught exception.
\<close>

datatype response =
    Rows nat
  | Pending string nat int
  | Committed string
  | RolledBack string
  | NoSql
  | NoTransactionId
  | NotReadOnly
  | TooManyTransactions
  | StatementFailed string
  | TransactionNotFound string
  | AlreadyReleased string
  | CommitFailed string
  | RollbackFailed string
  | ErrorText

fun isError :: "response \<Rightarrow> bool" where
  "isError (Rows _) = False"
| "isError (Pending _ _ _) = False"
| "isError (Committed _) = False"
| "isError (RolledBack _) = False"
| "isError _ = True"

datatype task =
    Returned response
  | Threw
  | Finished
  | QueryConnect string
  | QueryBegin nat string
  | QueryRun nat string
  | QueryCommit nat nat
  | DmlConnect string int
  | DmlBegin nat string int
  | DmlRun nat string int string
  | DmlRollback nat string
  | CommitCommit nat string
  | CommitRollback nat string
  | RollbackRollback nat string
  | MonitorRollback nat string
  | CleanupRollback nat string "(string \<times> nat) list"
  | ToolRollback nat string

fun suspended :: "task \<Rightarrow> bool" where
  "suspended (Returned _) = False"
| "suspended Threw = False"
| "suspended Finished = False"
| "suspended _ = True"

text \<open>
  What a resumed handler reads from its environment: \<open>Date.now()\<close> and the string
  \<open>generateTransactionId()\<close> builds from the clock and \<open>Math.random()\<close>.
\<close>

record env =
  now :: int
  newId :: string

subsection \<open>Entries of the handlers\<close>

text \<open>Both \<open>handleExecuteQuery\<close> and \<open>handleExecuteDML\<close> begin with \<open>await pool.connect()\<close>.\<close>

definition handleExecuteQuery :: "string \<Rightarrow> world \<Rightarrow> task \<times> world" where
  "handleExecuteQuery sqlText w = (QueryConnect sqlText, w)"

definition handleExecuteDML :: "string \<Rightarrow> int \<Rightarrow> world \<Rightarrow> task \<times> world" where
  "handleExecuteDML sqlText transactionTimeoutMs w = (DmlConnect sqlText transactionTimeoutMs, w)"

text \<open>
  \<open>handleExecuteCommit\<close> up to \<open>await transaction.client.query("COMMIT")\<close>. \<open>!transactionId\<close>
  holds of the empty string (and of a missing argument). \<open>getTransaction(id)!\<close> of an
  absent identifier would be \<open>undefined\<close>, and reading its \<open>released\<close> would throw.
\<close>

definition handleExecuteCommit :: "string \<Rightarrow> world \<Rightarrow> task \<times> world" where
  "handleExecuteCommit transactionId w =
     (if transactionId = [] then (Returned NoTransactionId, w)
      else if \<not> hasTransaction transactionId w then (Returned (TransactionNotFound transactionId), w)
      else case getTransaction transactionId w of
             None \<Rightarrow> (Threw, w)
           | Some r \<Rightarrow>
               if released (heap w r)
               then (Returned (AlreadyReleased transactionId), removeTransaction transactionId w)
               else (CommitCommit r transactionId, query (client (heap w r)) ''COMMIT'' w))"

definition handleExecuteRollback :: "string \<Rightarrow> world \<Rightarrow> task \<times> world" where
  "handleExecuteRollback transactionId w =
     (if transactionId = [] then (Returned NoTransactionId, w)
      else if \<not> hasTransaction transactionId w then (Returned (TransactionNotFound transactionId), w)
      else case getTransaction transactionId w of
             None \<Rightarrow> (Threw, w)
           | Some r \<Rightarrow>
               if released (heap w r)
               then (Returned (AlreadyReleased transactionId), removeTransaction transactionId w)
               else (RollbackRollback r transactionId, query (client (heap w r)) ''ROLLBACK'' w))"

text \<open>
  The three statements that end every finalisation: \<open>transaction.released = true;
  safelyReleaseClient(transaction.client); transactionManager.removeTransaction(id)\<close>.
\<close>

definition releaseAndRemove :: "nat \<Rightarrow> string \<Rightarrow> world \<Rightarrow> world" where
  "releaseAndRemove r tid w =
     removeTransaction tid (safelyReleaseClient (client (heap w r)) (markReleased r w))"

text \<open>
  The \<open>finally\<close> block of the monitor's forced rollback: the flag is read again, and the
  release happens only when it is still false.
\<close>

definition monitorFinally :: "nat \<Rightarrow> string \<Rightarrow> world \<Rightarrow> world" where
  "monitorFinally r tid w =
     removeTransaction tid
       (if \<not> released (heap w r)
        then safelyReleaseClient (client (heap w r)) (markReleased r w)
        else w)"

text \<open>
  The loop of \<open>cleanupTransactions\<close> over the snapshot \<open>Array.from(entries())\<close>, up to its
  next \<open>await transaction.client.query("ROLLBACK")\<close>; after the last entry,
  \<open>activeTransactions.clear()\<close>.
\<close>

fun cleanupLoop :: "(string \<times> nat) list \<Rightarrow> world \<Rightarrow> task \<times> world" where
  "cleanupLoop [] w = (Finished, w\<lparr>activeTransactions := []\<rparr>)"
| "cleanupLoop ((tid, r) # rest) w =
     (if released (heap w r) then cleanupLoop rest (removeTransaction tid w)
      else (CleanupRollback r tid rest, query (client (heap w r)) ''ROLLBACK'' w))"

definition cleanupTransactions :: "world \<Rightarrow> task \<times> world" where
  "cleanupTransactions w = cleanupLoop (activeTransactions w) w"

text \<open>
  \<open>checkStuckTransactions\<close>: one synchronous pass over the entries. An entry that is
  timed out has its state set, and its forced rollback starts at once: the \<open>async\<close>
  function runs up to \<open>await transaction.client.query("ROLLBACK")\<close> and is a task of its own
  from there.
\<close>

fun sweepLoop :: "int \<Rightarrow> int \<Rightarrow> (string \<times> nat) list \<Rightarrow> world \<Rightarrow> task list \<times> world" where
  "sweepLoop timeNow timeoutMs [] w = ([], w)"
| "sweepLoop timeNow timeoutMs ((tid, r) # rest) w =
     (if released (heap w r) then sweepLoop timeNow timeoutMs rest w
      else if timeNow - startTime (heap w r) > timeoutMs \<and> state (heap w r) = Active
      then (let w' = query (client (heap w r)) ''ROLLBACK'' (markTerminating r w);
                (ts, w'') = sweepLoop timeNow timeoutMs rest w'
            in (MonitorRollback r tid # ts, w''))
      else sweepLoop timeNow timeoutMs rest w)"

definition checkStuckTransactions :: "int \<Rightarrow> int \<Rightarrow> world \<Rightarrow> task list \<times> world" where
  "checkStuckTransactions timeNow transactionTimeoutMs w =
     sweepLoop timeNow transactionTimeoutMs (activeTransactions w) w"

text \<open>
  The handler index.ts registers for \<open>execute_rollback\<close> does not call
  \<open>handleExecuteRollback\<close>: it has the same lookups written out, without the test for a
  missing identifier, and one \<open>try\<close> around everything, whose \<open>catch\<close> answers with the
  text of the error. When its \<open>ROLLBACK\<close> fails, nothing is marked, released or removed.
\<close>

definition execute_rollback :: "string \<Rightarrow> world \<Rightarrow> task \<times> world" where
  "execute_rollback transactionId w =
     (if \<not> hasTransaction transactionId w then (Returned (TransactionNotFound transactionId), w)
      else case getTransaction transactionId w of
             None \<Rightarrow> (Returned ErrorText, w)
           | Some r \<Rightarrow>
               if released (heap w r)
               then (Returned (AlreadyReleased transactionId), removeTransaction transactionId w)
               else (ToolRollback r transactionId, query (client (heap w r)) ''ROLLBACK'' w))"

subsection \<open>Resuming a handler at its \<open>await\<close>\<close>

fun resume :: "env \<Rightarrow> outcome \<Rightarrow> task \<Rightarrow> world \<Rightarrow> task \<times> world" where
  \<comment> \<open>handleExecuteQuery: the checks come after \<open>pool.connect()\<close>; each rejecting branch
      releases the client and returns inside \<open>try\<close>, and \<open>finally\<close> releases it again\<close>
  "resume e Rejected (QueryConnect sqlText) w = (Threw, w)"
| "resume e (Resolved c) (QueryConnect sqlText) w =
     (let w1 = record_event (Acquire c) w in
      if sqlText = [] then (Returned NoSql, safelyReleaseClient c (safelyReleaseClient c w1))
      else if \<not> isReadOnlyQuery sqlText
      then (Returned NotReadOnly, safelyReleaseClient c (safelyReleaseClient c w1))
      else (QueryBegin c sqlText, query c ''BEGIN TRANSACTION READ ONLY'' w1))"
| "resume e Rejected (QueryBegin c sqlText) w = (Threw, safelyReleaseClient c w)"
| "resume e (Resolved _) (QueryBegin c sqlText) w = (QueryRun c sqlText, query c sqlText w)"
| "resume e Rejected (QueryRun c sqlText) w = (Threw, safelyReleaseClient c w)"
| "resume e (Resolved n) (QueryRun c sqlText) w = (QueryCommit c n, query c ''COMMIT'' w)"
| "resume e Rejected (QueryCommit c n) w = (Threw, safelyReleaseClient c w)"
| "resume e (Resolved _) (QueryCommit c n) w = (Returned (Rows n), safelyReleaseClient c w)"
  \<comment> \<open>handleExecuteDML: the outer \<open>catch\<close> releases and throws again; the inner one rolls
      back, releases and returns the error with the statement\<close>
| "resume e Rejected (DmlConnect sqlText tmo) w = (Threw, w)"
| "resume e (Resolved c) (DmlConnect sqlText tmo) w =
     (let w1 = record_event (Acquire c) w in
      if sqlText = [] then (Returned NoSql, safelyReleaseClient c w1)
      else (DmlBegin c sqlText tmo, query c ''BEGIN'' w1))"
| "resume e Rejected (DmlBegin c sqlText tmo) w = (Threw, safelyReleaseClient c w)"
| "resume e (Resolved _) (DmlBegin c sqlText tmo) w =
     (DmlRun c sqlText tmo (newId e), query c sqlText w)"
| "resume e (Resolved n) (DmlRun c sqlText tmo tid) w =
     (Returned (Pending tid n tmo), addTransaction (now e) tid c sqlText w)"
| "resume e Rejected (DmlRun c sqlText tmo tid) w =
     (DmlRollback c sqlText, query c ''ROLLBACK'' w)"
| "resume e (Resolved _) (DmlRollback c sqlText) w =
     (Returned (StatementFailed sqlText), safelyReleaseClient c w)"
| "resume e Rejected (DmlRollback c sqlText) w = (Threw, safelyReleaseClient c w)"
  \<comment> \<open>handleExecuteCommit, after \<open>COMMIT\<close> and after the fallback \<open>ROLLBACK\<close>\<close>
| "resume e (Resolved _) (CommitCommit r tid) w = (Returned (Committed tid), releaseAndRemove r tid w)"
| "resume e Rejected (CommitCommit r tid) w =
     (CommitRollback r tid, query (client (heap w r)) ''ROLLBACK'' w)"
| "resume e oc (CommitRollback r tid) w = (Returned (CommitFailed tid), releaseAndRemove r tid w)"
  \<comment> \<open>handleExecuteRollback, after \<open>ROLLBACK\<close>\<close>
| "resume e (Resolved _) (RollbackRollback r tid) w =
     (Returned (RolledBack tid), releaseAndRemove r tid w)"
| "resume e Rejected (RollbackRollback r tid) w =
     (Returned (RollbackFailed tid), releaseAndRemove r tid w)"
  \<comment> \<open>the monitor's forced rollback: \<open>try\<close> and \<open>catch\<close> only log\<close>
| "resume e oc (MonitorRollback r tid) w = (Finished, monitorFinally r tid w)"
  \<comment> \<open>cleanupTransactions: both branches mark, release and remove, then the loop goes on\<close>
| "resume e oc (CleanupRollback r tid rest) w = cleanupLoop rest (releaseAndRemove r tid w)"
  \<comment> \<open>the \<open>execute_rollback\<close> tool of index.ts\<close>
| "resume e (Resolved _) (ToolRollback r tid) w =
     (Returned (RolledBack tid), releaseAndRemove r tid w)"
| "resume e Rejected (ToolRollback r tid) w = (Returned ErrorText, w)"
| "resume e oc t w = (t, w)"

text \<open>
  A handler run alone: it is resumed with the outcomes of its awaits, in order, until it
  ends. With too few outcomes it stays suspended.
\<close>

fun exec :: "(env \<times> outcome) list \<Rightarrow> task \<times> world \<Rightarrow> task \<times> world" where
  "exec [] tw = tw"
| "exec ((e, oc) # rest) (t, w) = (if suspended t then exec rest (resume e oc t w) else (t, w))"

subsection \<open>The write tool of index.ts\<close>

record config =
  transactionTimeoutMs :: int
  maxConcurrentTransactions :: int

text \<open>
  The handler registered for \<open>execute_dml_ddl_dcl_tcl\<close>: the ceiling is checked against
  \<open>transactionCount\<close> before \<open>handleExecuteDML\<close> is called, and what \<open>handleExecuteDML\<close>
  throws is caught and answered as an error text.
\<close>

definition execute_dml_ddl_dcl_tcl :: "config \<Rightarrow> string \<Rightarrow> world \<Rightarrow> task \<times> world" where
  "execute_dml_ddl_dcl_tcl cfg sqlText w =
     (if int (transactionCount w) \<ge> maxConcurrentTransactions cfg
      then (Returned TooManyTransactions, w)
      else handleExecuteDML sqlText (transactionTimeoutMs cfg) w)"

definition toolCatch :: "task \<times> world \<Rightarrow> task \<times> world" where
  "toolCatch tw = (case fst tw of Threw \<Rightarrow> (Returned ErrorText, snd tw) | _ \<Rightarrow> tw)"

section \<open>The process: requests, timer and awaits interleaved\<close>

text \<open>
  One logical thread runs everything. A step of the process is one uninterrupted piece of
  code: a request entering its handler (up to the first \<open>await\<close>), a tick of the monitor's
  timer, the shutdown drain starting, or a suspended task resumed by the outcome of its
  \<open>await\<close>. Which comes next, and with which outcome, is not determined.
\<close>

type_synonym process = "world \<times> task list"

inductive step :: "config \<Rightarrow> process \<Rightarrow> process \<Rightarrow> bool" for cfg :: config where
  read_query:
    "handleExecuteQuery sqlText w = (t, w') \<Longrightarrow> step cfg (w, ts) (w', ts @ [t])"
| write_execute:
    "execute_dml_ddl_dcl_tcl cfg sqlText w = (t, w') \<Longrightarrow> step cfg (w, ts) (w', ts @ [t])"
| commit:
    "handleExecuteCommit tid w = (t, w') \<Longrightarrow> step cfg (w, ts) (w', ts @ [t])"
| rollback:
    "handleExecuteRollback tid w = (t, w') \<Longrightarrow> step cfg (w, ts) (w', ts @ [t])"
| rollback_tool:
    "execute_rollback tid w = (t, w') \<Longrightarrow> step cfg (w, ts) (w', ts @ [t])"
| monitor:
    "checkStuckTransactions timeNow (transactionTimeoutMs cfg) w = (new, w') \<Longrightarrow>
     step cfg (w, ts) (w', ts @ new)"
| shutdown:
    "cleanupTransactions w = (t, w') \<Longrightarrow> step cfg (w, ts) (w', ts @ [t])"
| await:
    "i < length ts \<Longrightarrow> suspended (ts ! i) \<Longrightarrow> resume e oc (ts ! i) w = (t, w') \<Longrightarrow>
     step cfg (w, ts) (w', ts[i := t])"

inductive reachable :: "config \<Rightarrow> process \<Rightarrow> bool" for cfg :: config where
  start: "reachable cfg (emptyWorld, [])"
| later: "reachable cfg p \<Longrightarrow> step cfg p p' \<Longrightarrow> reachable cfg p'"

section \<open>What stays true of the registry\<close>

text \<open>
  An entry is well placed when its object exists and carries the identifier it is filed
  under. The registry is in order when its identifiers are distinct and every entry is
  well placed and not released. A suspended finalisation holds an object and the
  identifier it looked up or iterated over; a later world extends an earlier one when the
  objects of the earlier one are still there with their identifiers.
\<close>

definition entry_ok :: "world \<Rightarrow> string \<times> nat \<Rightarrow> bool" where
  "entry_ok w p = (snd p < nextRef w \<and> tx_id (heap w (snd p)) = fst p)"

definition registry_ok :: "world \<Rightarrow> bool" where
  "registry_ok w =
     (distinct (map fst (activeTransactions w)) \<and>
      (\<forall>p \<in> set (activeTransactions w). entry_ok w p \<and> \<not> released (heap w (snd p))))"

fun task_ok :: "world \<Rightarrow> task \<Rightarrow> bool" where
  "task_ok w (CommitCommit r tid) = entry_ok w (tid, r)"
| "task_ok w (CommitRollback r tid) = entry_ok w (tid, r)"
| "task_ok w (RollbackRollback r tid) = entry_ok w (tid, r)"
| "task_ok w (MonitorRollback r tid) = entry_ok w (tid, r)"
| "task_ok w (ToolRollback r tid) = entry_ok w (tid, r)"
| "task_ok w (CleanupRollback r tid rest) = (entry_ok w (tid, r) \<and> (\<forall>p \<in> set rest. entry_ok w p))"
| "task_ok w t = True"

definition extends :: "world \<Rightarrow> world \<Rightarrow> bool" where
  "extends w w' =
     (nextRef w \<le> nextRef w' \<and> (\<forall>a < nextRef w. tx_id (heap w' a) = tx_id (heap w a)))"

definition process_ok :: "process \<Rightarrow> bool" where
  "process_ok p = (registry_ok (fst p) \<and> (\<forall>t \<in> set (snd p). task_ok (fst p) t))"

section \<open>Concrete runs\<close>

text \<open>
  The worlds of the scenarios below. \<open>heldWorld\<close> is the process after one write-execute
  went through on client 7 (identifier \<open>tx_1\<close>, registered at time 1000); \<open>twoHeld\<close> has
  a second one on client 8. The last four are the worlds of one interleaving: the monitor
  finds \<open>tx_1\<close> timed out and issues its \<open>ROLLBACK\<close>, a commit of \<open>tx_1\<close> arrives and issues
  its \<open>COMMIT\<close>, the \<open>ROLLBACK\<close> resolves, then the \<open>COMMIT\<close> resolves.
\<close>

definition env0 :: env where
  "env0 = \<lparr>now = 1000, newId = ''tx_1''\<rparr>"

definition env1 :: env where
  "env1 = \<lparr>now = 2000, newId = ''tx_2''\<rparr>"

definition cfg0 :: config where
  "cfg0 = \<lparr>transactionTimeoutMs = 15000, maxConcurrentTransactions = 10\<rparr>"

definition cfg1 :: config where
  "cfg1 = \<lparr>transactionTimeoutMs = 15000, maxConcurrentTransactions = 1\<rparr>"

definition insertSql :: string where
  "insertSql = ''INSERT INTO t VALUES (1)''"

definition heldWorld :: world where
  "heldWorld =
     snd (exec [(env0, Resolved 7), (env0, Resolved 0), (env0, Resolved 1)]
            (execute_dml_ddl_dcl_tcl cfg0 insertSql emptyWorld))"

definition twoHeld :: world where
  "twoHeld =
     snd (exec [(env1, Resolved 8), (env1, Resolved 0), (env1, Resolved 1)]
            (execute_dml_ddl_dcl_tcl cfg0 insertSql heldWorld))"

definition afterSweep :: world where
  "afterSweep = snd (checkStuckTransactions 20000 (transactionTimeoutMs cfg0) heldWorld)"

definition afterCommitStart :: world where
  "afterCommitStart = snd (handleExecuteCommit ''tx_1'' afterSweep)"

definition afterForcedRollback :: world where
  "afterForcedRollback =
     snd (resume env0 (Resolved 0) (MonitorRollback 0 ''tx_1'') afterCommitStart)"

definition raceWorld :: world where
  "raceWorld = snd (resume env0 (Resolved 0) (CommitCommit 0 ''tx_1'') afterForcedRollback)"

section \<open>Properties of the classifier\<close>

lemma startsWith_beginsWith: "startsWith s p = beginsWith s p"
proof
  assume "startsWith s p"
  then have "s = p @ drop (length p) s"
    unfolding startsWith_def by (metis append_take_drop_id)
  then show "beginsWith s p"
    unfolding beginsWith_def by blast
next
  assume "beginsWith s p"
  then show "startsWith s p"
    unfolding beginsWith_def startsWith_def by auto
qed

lemma trim_is_trimmed: "trimmedOf s (trim s)"
proof -
  let ?u = "dropWhile isWhiteSpace s"
  let ?before = "takeWhile isWhiteSpace s"
  let ?rest = "rev (takeWhile isWhiteSpace (rev ?u))"
  have "rev (takeWhile isWhiteSpace (rev ?u) @ dropWhile isWhiteSpace (rev ?u)) = ?u"
    by (simp only: takeWhile_dropWhile_id rev_rev_ident)
  then have u: "?u = trim s @ ?rest"
    by (simp only: rev_append trim_def)
  have "s = ?before @ ?u" by simp
  with u have split: "s = ?before @ trim s @ ?rest" by simp
  have b: "list_all isWhiteSpace ?before"
    by (simp add: list_all_iff) (meson set_takeWhileD)
  have r: "list_all isWhiteSpace ?rest"
    by (simp add: list_all_iff) (meson set_takeWhileD)
  have ends: "\<not> isWhiteSpace (hd (trim s)) \<and> \<not> isWhiteSpace (last (trim s))" if ne: "trim s \<noteq> []"
  proof -
    from ne have d: "dropWhile isWhiteSpace (rev ?u) \<noteq> []" by (simp add: trim_def)
    then have "\<not> isWhiteSpace (hd (dropWhile isWhiteSpace (rev ?u)))"
      by (rule hd_dropWhile)
    with d have l: "\<not> isWhiteSpace (last (trim s))"
      by (simp add: trim_def last_rev)
    from ne u have une: "?u \<noteq> []" by (metis Nil_is_append_conv)
    then have "\<not> isWhiteSpace (hd ?u)" by (rule hd_dropWhile)
    moreover from u ne have "hd ?u = hd (trim s)" by (metis hd_append2)
    ultimately show ?thesis using l by simp
  qed
  show ?thesis
    unfolding trimmedOf_def using split b r ends by blast
qed

lemma dropWhile_all: "list_all P xs \<Longrightarrow> dropWhile P (xs @ ys) = dropWhile P ys"
  by (induction xs) auto

lemma trimmed_is_trim:
  assumes "trimmedOf s t"
  shows "t = trim s"
proof -
  from assms obtain before rest where s: "s = before @ t @ rest"
    and b: "list_all isWhiteSpace before" and r: "list_all isWhiteSpace rest"
    and ends: "t = [] \<or> (\<not> isWhiteSpace (hd t) \<and> \<not> isWhiteSpace (last t))"
    unfolding trimmedOf_def by blast
  have rr: "list_all isWhiteSpace (rev rest)" using r by (simp add: list_all_iff)
  show ?thesis
  proof (cases "t = []")
    case True
    have "dropWhile isWhiteSpace (before @ rest) = dropWhile isWhiteSpace rest"
      using b by (rule dropWhile_all)
    also have "\<dots> = []"
      using r by (simp add: list_all_iff)
    finally have e: "dropWhile isWhiteSpace s = []"
      using s True by simp
    have "trim s = []"
      by (simp only: trim_def e rev.simps dropWhile.simps)
    with True show ?thesis by simp
  next
    case False
    with ends have h: "\<not> isWhiteSpace (hd t)" and l: "\<not> isWhiteSpace (last t)" by simp_all
    from False h have "dropWhile isWhiteSpace (t @ rest) = t @ rest"
      by (cases t) simp_all
    with s b have 1: "dropWhile isWhiteSpace s = t @ rest"
      by (simp add: dropWhile_all)
    from False l have "dropWhile isWhiteSpace (rev t) = rev t"
      by (cases "rev t") (simp_all add: last_rev [symmetric] hd_rev)
    with rr have "dropWhile isWhiteSpace (rev rest @ rev t) = rev t"
      by (simp add: dropWhile_all)
    with 1 show ?thesis by (simp add: trim_def)
  qed
qed

lemma caseNormalizedOf_iff: "caseNormalizedOf t n = (n = toUpperCase t)"
proof -
  have "list_all2 (\<lambda>c p. p = upperOf c) t pieces = (pieces = map upperOf t)" for pieces
    by (induction t arbitrary: pieces) (auto simp: list_all2_Cons1)
  then show ?thesis
    unfolding caseNormalizedOf_def toUpperCase_def by auto
qed

lemma upperOf_capital:
  assumes "65 \<le> k" "k \<le> 90"
  shows "(upperOf c = [k]) = (of_char c = k \<or> of_char c = k + 32)"
proof -
  have "(of_char c :: nat) < 256" by simp
  with assms show ?thesis
    unfolding upperOf_def Let_def by (auto split: if_splits)
qed

lemma containsAnywhere_Nil: "containsAnywhere [] p = beginsWith [] p"
  unfolding containsAnywhere_def beginsWith_def by auto

lemma containsAnywhere_Cons:
  "containsAnywhere (c # s) p = (beginsWith (c # s) p \<or> containsAnywhere s p)"
proof
  assume "containsAnywhere (c # s) p"
  then obtain before rest where e: "c # s = before @ p @ rest"
    unfolding containsAnywhere_def by blast
  show "beginsWith (c # s) p \<or> containsAnywhere s p"
  proof (cases before)
    case Nil
    with e show ?thesis unfolding beginsWith_def by auto
  next
    case (Cons b bs)
    with e have "s = bs @ p @ rest" by simp
    then show ?thesis unfolding containsAnywhere_def by blast
  qed
next
  assume "beginsWith (c # s) p \<or> containsAnywhere s p"
  then show "containsAnywhere (c # s) p"
  proof
    assume "beginsWith (c # s) p"
    then obtain rest where "c # s = [] @ p @ rest"
      unfolding beginsWith_def by auto
    then show ?thesis unfolding containsAnywhere_def by blast
  next
    assume "containsAnywhere s p"
    then obtain before rest where "s = before @ p @ rest"
      unfolding containsAnywhere_def by blast
    then have "c # s = (c # before) @ p @ rest" by simp
    then show ?thesis unfolding containsAnywhere_def by blast
  qed
qed

lemma includesStr_containsAnywhere: "includesStr s p = containsAnywhere s p"
  by (induction s) (simp_all add: startsWith_beginsWith containsAnywhere_Nil containsAnywhere_Cons)

lemma specReadOnly_unfold:
  "specReadOnly s =
     (let n = toUpperCase (trim s) in
        beginsWith n (codeUnits ''SELECT'') \<or> beginsWith n (codeUnits ''WITH'') \<or>
        beginsWith n (codeUnits ''EXPLAIN'') \<or>
        (beginsWith n (codeUnits ''SHOW'') \<and> \<not> containsAnywhere n (codeUnits ''CREATE'')))"
  unfolding specReadOnly_def Let_def caseNormalizedOf_iff
  using trim_is_trimmed trimmed_is_trim by blast

text \<open>
  C8. For every SQL string, \<open>isReadOnlyQuery\<close> is true exactly when the statement, with
  the white space at its two ends taken off and every character put in upper case, begins
  with SELECT, WITH or EXPLAIN, or begins with SHOW and does not contain CREATE anywhere.
  The classifier is a function of the string alone: it reads and writes no state.
\<close>

theorem isReadOnlyQuery_policy: "isReadOnlyQuery s = specReadOnly s"
  unfolding isReadOnlyQuery_def specReadOnly_unfold readOnlyNormalized_def Let_def
  by (simp add: startsWith_beginsWith includesStr_containsAnywhere)

lemmas classify = isReadOnlyQuery_def readOnlyNormalized_def trim_def toUpperCase_def
  upperOf_def codeUnits_def isWhiteSpace_def startsWith_def Let_def

text \<open>The upper-case forms of some characters above \<open>z\<close>, and white space at both ends.\<close>

lemma toUpperCase_examples:
  "toUpperCase [CHR 0xDF, CHR 0xE0, CHR 0xB5, CHR 0xFF, CHR 0xF7, CHR ''z''] =
     [83, 83, 192, 924, 376, 247, 90] \<and>
   toUpperCase ''select'' = codeUnits ''SELECT'' \<and>
   trim (CHR 0xA0 # CHR 0x09 # '' a b '' @ [CHR 0x0A, CHR 0x0D]) = ''a b''"
  by (simp add: classify)

text \<open>
  C8 at four statements: a select in small letters after a no-break space, and a
  \<open>WITH\<close> that wraps an insert, are read-only; \<open>show create table\<close> and an insert are
  not.
\<close>

theorem isReadOnlyQuery_policy_witness:
  "specReadOnly (CHR 0xA0 # ''select 1 '') \<and>
   specReadOnly ''WITH x AS (SELECT 1) INSERT INTO t SELECT * FROM x'' \<and>
   \<not> specReadOnly ''show create table t'' \<and>
   \<not> specReadOnly ''INSERT INTO t VALUES (1)''"
proof -
  have "isReadOnlyQuery (CHR 0xA0 # ''select 1 '')"
    and "isReadOnlyQuery ''WITH x AS (SELECT 1) INSERT INTO t SELECT * FROM x''"
    and "\<not> isReadOnlyQuery ''show create table t''"
    and "\<not> isReadOnlyQuery ''INSERT INTO t VALUES (1)''"
    by (simp_all add: classify)
  then show ?thesis
    unfolding isReadOnlyQuery_policy by blast
qed

text \<open>
  Two statements used below: an insert is not read-only, a select that divides by zero
  is.
\<close>

lemma insert_not_read_only: "\<not> isReadOnlyQuery ''INSERT INTO t VALUES (1)''"
  by (simp add: classify)

lemma select_read_only: "isReadOnlyQuery ''SELECT 1/0''"
  by (simp add: classify)

section \<open>Basic facts about the registry and about runs\<close>

lemmas world_ops = record_event_def safelyReleaseClient_def query_def addTransaction_def
  getTransaction_def removeTransaction_def hasTransaction_def transactionCount_def
  markReleased_def markTerminating_def releaseAndRemove_def monitorFinally_def

lemma exec_ended: "\<not> suspended t \<Longrightarrow> exec os (t, w) = (t, w)"
  by (cases os) auto

lemma hasTransaction_iff: "hasTransaction tid w = (getTransaction tid w \<noteq> None)"
  by (simp add: hasTransaction_def getTransaction_def map_of_eq_None_iff)

lemma hasTransaction_remove: "\<not> hasTransaction tid (removeTransaction tid w)"
  by (simp add: hasTransaction_def removeTransaction_def delete_keys)

lemma hasTransaction_releaseAndRemove: "\<not> hasTransaction tid (releaseAndRemove r tid w)"
  by (simp add: releaseAndRemove_def hasTransaction_remove)

lemma entry_of_lookup:
  "getTransaction tid w = Some r \<Longrightarrow> (tid, r) \<in> set (activeTransactions w)"
  by (simp add: getTransaction_def map_of_SomeD)

lemma set_delete: "set (AList.delete k al) = {p \<in> set al. fst p \<noteq> k}"
  by (auto simp: AList.delete_eq)

lemma delete_filter: "AList.delete k al = filter (\<lambda>p. fst p \<noteq> k) al"
  by (induction al) auto

lemma set_update: "p \<in> set (AList.update k v al) \<Longrightarrow> p = (k, v) \<or> p \<in> set al"
  by (induction al) (auto split: if_splits)

lemma length_update_new:
  "k \<notin> set (map fst al) \<Longrightarrow> length (AList.update k v al) = Suc (length al)"
  by (induction al) auto

lemma length_delete_present:
  "distinct (map fst al) \<Longrightarrow> k \<in> set (map fst al) \<Longrightarrow>
   Suc (length (AList.delete k al)) = length al"
proof (induction al)
  case Nil
  then show ?case by simp
next
  case (Cons p al)
  show ?case
  proof (cases "fst p = k")
    case True
    with Cons.prems have "k \<notin> set (map fst al)" by auto
    then have "AList.delete k al = al"
      by (simp add: delete_id image_iff)
    with True show ?thesis by (cases p) (simp add: AList.delete_eq)
  next
    case False
    with Cons show ?thesis by (auto simp: AList.delete_eq)
  qed
qed

text \<open>
  The worlds of the concrete runs, written out.
\<close>

lemmas concrete = env0_def env1_def cfg0_def cfg1_def insertSql_def
  execute_dml_ddl_dcl_tcl_def handleExecuteDML_def handleExecuteQuery_def
  handleExecuteCommit_def handleExecuteRollback_def checkStuckTransactions_def
  cleanupTransactions_def emptyWorld_def noTransaction_def world_ops Let_def
  AList.delete_eq releaseCount_def

lemma heldWorld_eq:
  "heldWorld = \<lparr>activeTransactions = [(''tx_1'', 0)],
      heap = (\<lambda>_. noTransaction)(0 := \<lparr>tx_id = ''tx_1'', client = 7, startTime = 1000,
                 sql = ''INSERT INTO t VALUES (1)'', state = Active, released = False\<rparr>),
      nextRef = 1,
      trace = [Acquire 7, Query 7 ''BEGIN'', Query 7 ''INSERT INTO t VALUES (1)'']\<rparr>"
  by (simp add: heldWorld_def concrete)

lemma held_run:
  "exec [(env0, Resolved 7), (env0, Resolved 0), (env0, Resolved 1)]
            (execute_dml_ddl_dcl_tcl cfg0 insertSql emptyWorld)
   = (Returned (Pending ''tx_1'' 1 15000), heldWorld)"
  by (simp add: heldWorld_def concrete)

lemma held_entry:
  "getTransaction ''tx_1'' heldWorld = Some 0" "\<not> released (heap heldWorld 0)"
  "client (heap heldWorld 0) = 7" "distinct (map fst (activeTransactions heldWorld))"
  "transactionCount heldWorld = 1"
  by (simp_all add: heldWorld_eq getTransaction_def transactionCount_def)

lemma twoHeld_eq:
  "twoHeld = \<lparr>activeTransactions = [(''tx_1'', 0), (''tx_2'', 1)],
      heap = (\<lambda>_. noTransaction)
        (0 := \<lparr>tx_id = ''tx_1'', client = 7, startTime = 1000,
                 sql = ''INSERT INTO t VALUES (1)'', state = Active, released = False\<rparr>,
         1 := \<lparr>tx_id = ''tx_2'', client = 8, startTime = 2000,
                 sql = ''INSERT INTO t VALUES (1)'', state = Active, released = False\<rparr>),
      nextRef = 2,
      trace = [Acquire 7, Query 7 ''BEGIN'', Query 7 ''INSERT INTO t VALUES (1)'',
               Acquire 8, Query 8 ''BEGIN'', Query 8 ''INSERT INTO t VALUES (1)'']\<rparr>"
  by (simp add: twoHeld_def heldWorld_eq concrete)

section \<open>Registration\<close>

text \<open>
  C10. The entry \<open>addTransaction\<close> files under the supplied identifier is a new object with
  that identifier, the supplied client, \<open>startTime\<close> the time of registration, state
  \<open>active\<close>, \<open>released\<close> false, and as \<open>sql\<close> the first 100 characters of the statement: a
  prefix of the statement, at most 100 long. \<open>handleExecuteDML\<close> registers with the current
  time once its statement has resolved.
\<close>

theorem addTransaction_initial:
  "getTransaction tid (addTransaction timeNow tid c sqlText w) = Some (nextRef w) \<and>
   heap (addTransaction timeNow tid c sqlText w) (nextRef w) =
     \<lparr>tx_id = tid, client = c, startTime = timeNow, sql = take 100 sqlText,
      state = Active, released = False\<rparr> \<and>
   prefix (take 100 sqlText) sqlText \<and> length (take 100 sqlText) \<le> 100 \<and>
   resume e (Resolved n) (DmlRun c sqlText tmo tid) w =
     (Returned (Pending tid n tmo), addTransaction (now e) tid c sqlText w)"
  by (simp add: addTransaction_def getTransaction_def update_conv' take_is_prefix)

section \<open>Explicit commit and rollback\<close>

lemma commit_absent:
  "tid \<noteq> [] \<Longrightarrow> \<not> hasTransaction tid w \<Longrightarrow>
   handleExecuteCommit tid w = (Returned (TransactionNotFound tid), w)"
  by (simp add: handleExecuteCommit_def)

lemma rollback_absent:
  "tid \<noteq> [] \<Longrightarrow> \<not> hasTransaction tid w \<Longrightarrow>
   handleExecuteRollback tid w = (Returned (TransactionNotFound tid), w)"
  by (simp add: handleExecuteRollback_def)

lemma commit_released:
  "tid \<noteq> [] \<Longrightarrow> getTransaction tid w = Some r \<Longrightarrow> released (heap w r) \<Longrightarrow>
   handleExecuteCommit tid w = (Returned (AlreadyReleased tid), removeTransaction tid w)"
  by (simp add: handleExecuteCommit_def hasTransaction_iff)

lemma rollback_released:
  "tid \<noteq> [] \<Longrightarrow> getTransaction tid w = Some r \<Longrightarrow> released (heap w r) \<Longrightarrow>
   handleExecuteRollback tid w = (Returned (AlreadyReleased tid), removeTransaction tid w)"
  by (simp add: handleExecuteRollback_def hasTransaction_iff)

lemma commit_success:
  "tid \<noteq> [] \<Longrightarrow> getTransaction tid w = Some r \<Longrightarrow> \<not> released (heap w r) \<Longrightarrow>
   exec [(e, Resolved k)] (handleExecuteCommit tid w) =
     (Returned (Committed tid),
      releaseAndRemove r tid (query (client (heap w r)) ''COMMIT'' w))"
  by (simp add: handleExecuteCommit_def hasTransaction_iff)

lemma rollback_success:
  "tid \<noteq> [] \<Longrightarrow> getTransaction tid w = Some r \<Longrightarrow> \<not> released (heap w r) \<Longrightarrow>
   exec [(e, Resolved k)] (handleExecuteRollback tid w) =
     (Returned (RolledBack tid),
      releaseAndRemove r tid (query (client (heap w r)) ''ROLLBACK'' w))"
  by (simp add: handleExecuteRollback_def hasTransaction_iff)

lemma trace_releaseAndRemove_query:
  "trace (releaseAndRemove r tid (query (client (heap w r)) text w)) =
   trace w @ [Query (client (heap w r)) text, Release (client (heap w r))]"
  by (simp add: world_ops)

lemma finalised_world:
  "activeTransactions (releaseAndRemove r tid (query c q w)) =
     filter (\<lambda>p. fst p \<noteq> tid) (activeTransactions w) \<and>
   released (heap (releaseAndRemove r tid (query c q w)) r) \<and>
   trace (releaseAndRemove r tid (query (client (heap w r)) q w)) =
     trace w @ [Query (client (heap w r)) q, Release (client (heap w r))]"
  by (simp add: world_ops delete_filter)

lemma tool_rollback_success:
  "getTransaction tid w = Some r \<Longrightarrow> \<not> released (heap w r) \<Longrightarrow>
   exec [(e, Resolved k)] (execute_rollback tid w) =
     (Returned (RolledBack tid),
      releaseAndRemove r tid (query (client (heap w r)) ''ROLLBACK'' w))"
  by (simp add: execute_rollback_def hasTransaction_iff)

lemma tool_rollback_absent:
  "\<not> hasTransaction tid w \<Longrightarrow> execute_rollback tid w = (Returned (TransactionNotFound tid), w)"
  by (simp add: execute_rollback_def)

lemma tool_rollback_released:
  "getTransaction tid w = Some r \<Longrightarrow> released (heap w r) \<Longrightarrow>
   execute_rollback tid w = (Returned (AlreadyReleased tid), removeTransaction tid w)"
  by (simp add: execute_rollback_def hasTransaction_iff)

lemma second_call:
  "tid \<noteq> [] \<Longrightarrow>
   handleExecuteCommit tid (releaseAndRemove r tid w) =
     (Returned (TransactionNotFound tid), releaseAndRemove r tid w) \<and>
   handleExecuteRollback tid (releaseAndRemove r tid w) =
     (Returned (TransactionNotFound tid), releaseAndRemove r tid w) \<and>
   execute_rollback tid (releaseAndRemove r tid w) =
     (Returned (TransactionNotFound tid), releaseAndRemove r tid w)"
  by (simp add: commit_absent rollback_absent tool_rollback_absent hasTransaction_releaseAndRemove)

text \<open>
  C2. Commit and rollback are each idempotent. A transaction identifier is a non-empty
  string; a missing identifier (the empty string) is the input-validation case, which
  \<open>handleExecuteCommit\<close> and \<open>handleExecuteRollback\<close> answer with "No transaction ID
  provided" before they consult the registry, in every world. For every identifier and
  for commit, for \<open>handleExecuteRollback\<close> and for the rollback tool that index.ts wires:
  on an identifier absent from the registry each fails with \<open>TransactionNotFound\<close> and
  changes nothing; on an entry whose \<open>released\<close> flag is already set each fails with
  \<open>AlreadyReleased\<close>, takes the entries under that identifier out of the registry and
  touches no connection; and a first call that goes through issues its one statement,
  sets the flag, releases once and takes the entry out, after which a second commit or
  rollback fails with \<open>TransactionNotFound\<close> and leaves the world as it is: no second
  statement, no second release.
\<close>

theorem commit_rollback_idempotent:
  "handleExecuteCommit [] w = (Returned NoTransactionId, w) \<and>
   handleExecuteRollback [] w = (Returned NoTransactionId, w) \<and>
   (tid \<noteq> [] \<and> \<not> hasTransaction tid w \<longrightarrow>
      handleExecuteCommit tid w = (Returned (TransactionNotFound tid), w) \<and>
      handleExecuteRollback tid w = (Returned (TransactionNotFound tid), w) \<and>
      execute_rollback tid w = (Returned (TransactionNotFound tid), w)) \<and>
   (tid \<noteq> [] \<and> getTransaction tid w = Some r \<and> released (heap w r) \<longrightarrow>
      handleExecuteCommit tid w = (Returned (AlreadyReleased tid), removeTransaction tid w) \<and>
      handleExecuteRollback tid w = (Returned (AlreadyReleased tid), removeTransaction tid w) \<and>
      execute_rollback tid w = (Returned (AlreadyReleased tid), removeTransaction tid w) \<and>
      activeTransactions (removeTransaction tid w) =
        filter (\<lambda>p. fst p \<noteq> tid) (activeTransactions w) \<and>
      \<not> hasTransaction tid (removeTransaction tid w) \<and>
      trace (removeTransaction tid w) = trace w) \<and>
   (tid \<noteq> [] \<and> getTransaction tid w = Some r \<and> \<not> released (heap w r) \<longrightarrow>
      (\<exists>w1. exec [(e, Resolved k)] (handleExecuteCommit tid w) = (Returned (Committed tid), w1) \<and>
            trace w1 = trace w @ [Query (client (heap w r)) ''COMMIT'', Release (client (heap w r))] \<and>
            activeTransactions w1 = filter (\<lambda>p. fst p \<noteq> tid) (activeTransactions w) \<and>
            released (heap w1 r) \<and>
            handleExecuteCommit tid w1 = (Returned (TransactionNotFound tid), w1) \<and>
            handleExecuteRollback tid w1 = (Returned (TransactionNotFound tid), w1) \<and>
            execute_rollback tid w1 = (Returned (TransactionNotFound tid), w1)) \<and>
      (\<exists>w1. exec [(e, Resolved k)] (handleExecuteRollback tid w) = (Returned (RolledBack tid), w1) \<and>
            trace w1 = trace w @ [Query (client (heap w r)) ''ROLLBACK'', Release (client (heap w r))] \<and>
            activeTransactions w1 = filter (\<lambda>p. fst p \<noteq> tid) (activeTransactions w) \<and>
            released (heap w1 r) \<and>
            handleExecuteCommit tid w1 = (Returned (TransactionNotFound tid), w1) \<and>
            handleExecuteRollback tid w1 = (Returned (TransactionNotFound tid), w1) \<and>
            execute_rollback tid w1 = (Returned (TransactionNotFound tid), w1)) \<and>
      (\<exists>w1. exec [(e, Resolved k)] (execute_rollback tid w) = (Returned (RolledBack tid), w1) \<and>
            trace w1 = trace w @ [Query (client (heap w r)) ''ROLLBACK'', Release (client (heap w r))] \<and>
            activeTransactions w1 = filter (\<lambda>p. fst p \<noteq> tid) (activeTransactions w) \<and>
            released (heap w1 r) \<and>
            handleExecuteCommit tid w1 = (Returned (TransactionNotFound tid), w1) \<and>
            handleExecuteRollback tid w1 = (Returned (TransactionNotFound tid), w1) \<and>
            execute_rollback tid w1 = (Returned (TransactionNotFound tid), w1)))"
proof (intro conjI impI)
  show "handleExecuteCommit [] w = (Returned NoTransactionId, w)"
    by (simp add: handleExecuteCommit_def)
  show "handleExecuteRollback [] w = (Returned NoTransactionId, w)"
    by (simp add: handleExecuteRollback_def)
next
  assume a: "tid \<noteq> [] \<and> \<not> hasTransaction tid w"
  then show "handleExecuteCommit tid w = (Returned (TransactionNotFound tid), w)"
    and "handleExecuteRollback tid w = (Returned (TransactionNotFound tid), w)"
    and "execute_rollback tid w = (Returned (TransactionNotFound tid), w)"
    by (simp_all add: commit_absent rollback_absent tool_rollback_absent)
next
  assume a: "tid \<noteq> [] \<and> getTransaction tid w = Some r \<and> released (heap w r)"
  then show "handleExecuteCommit tid w = (Returned (AlreadyReleased tid), removeTransaction tid w)"
    and "handleExecuteRollback tid w = (Returned (AlreadyReleased tid), removeTransaction tid w)"
    and "execute_rollback tid w = (Returned (AlreadyReleased tid), removeTransaction tid w)"
    by (simp_all add: commit_released rollback_released tool_rollback_released)
  show "activeTransactions (removeTransaction tid w) =
        filter (\<lambda>p. fst p \<noteq> tid) (activeTransactions w)"
    by (simp add: removeTransaction_def delete_filter)
  show "\<not> hasTransaction tid (removeTransaction tid w)"
    by (rule hasTransaction_remove)
  show "trace (removeTransaction tid w) = trace w"
    by (simp add: removeTransaction_def)
next
  assume a: "tid \<noteq> [] \<and> getTransaction tid w = Some r \<and> \<not> released (heap w r)"
  then have ne: "tid \<noteq> []" and g: "getTransaction tid w = Some r" and u: "\<not> released (heap w r)"
    by simp_all
  show "\<exists>w1. exec [(e, Resolved k)] (handleExecuteCommit tid w) = (Returned (Committed tid), w1) \<and>
            trace w1 = trace w @ [Query (client (heap w r)) ''COMMIT'', Release (client (heap w r))] \<and>
            activeTransactions w1 = filter (\<lambda>p. fst p \<noteq> tid) (activeTransactions w) \<and>
            released (heap w1 r) \<and>
            handleExecuteCommit tid w1 = (Returned (TransactionNotFound tid), w1) \<and>
            handleExecuteRollback tid w1 = (Returned (TransactionNotFound tid), w1) \<and>
            execute_rollback tid w1 = (Returned (TransactionNotFound tid), w1)"
    unfolding commit_success [OF ne g u]
    using finalised_world [of r tid _ "''COMMIT''" w] second_call [OF ne] by auto
  show "\<exists>w1. exec [(e, Resolved k)] (handleExecuteRollback tid w) = (Returned (RolledBack tid), w1) \<and>
            trace w1 = trace w @ [Query (client (heap w r)) ''ROLLBACK'', Release (client (heap w r))] \<and>
            activeTransactions w1 = filter (\<lambda>p. fst p \<noteq> tid) (activeTransactions w) \<and>
            released (heap w1 r) \<and>
            handleExecuteCommit tid w1 = (Returned (TransactionNotFound tid), w1) \<and>
            handleExecuteRollback tid w1 = (Returned (TransactionNotFound tid), w1) \<and>
            execute_rollback tid w1 = (Returned (TransactionNotFound tid), w1)"
    unfolding rollback_success [OF ne g u]
    using finalised_world [of r tid _ "''ROLLBACK''" w] second_call [OF ne] by auto
  show "\<exists>w1. exec [(e, Resolved k)] (execute_rollback tid w) = (Returned (RolledBack tid), w1) \<and>
            trace w1 = trace w @ [Query (client (heap w r)) ''ROLLBACK'', Release (client (heap w r))] \<and>
            activeTransactions w1 = filter (\<lambda>p. fst p \<noteq> tid) (activeTransactions w) \<and>
            released (heap w1 r) \<and>
            handleExecuteCommit tid w1 = (Returned (TransactionNotFound tid), w1) \<and>
            handleExecuteRollback tid w1 = (Returned (TransactionNotFound tid), w1) \<and>
            execute_rollback tid w1 = (Returned (TransactionNotFound tid), w1)"
    unfolding tool_rollback_success [OF g u]
    using finalised_world [of r tid _ "''ROLLBACK''" w] second_call [OF ne] by auto
qed

text \<open>
  C2 at \<open>tx_1\<close>: absent from the empty registry; filed with the flag set; and held
  open, committed, then committed or rolled back again.
\<close>

theorem commit_rollback_idempotent_witness:
  "handleExecuteCommit ''tx_1'' emptyWorld = (Returned (TransactionNotFound ''tx_1''), emptyWorld) \<and>
   handleExecuteRollback ''tx_1'' (markReleased 0 heldWorld) =
     (Returned (AlreadyReleased ''tx_1''), removeTransaction ''tx_1'' (markReleased 0 heldWorld)) \<and>
   activeTransactions (removeTransaction ''tx_1'' (markReleased 0 heldWorld)) = [] \<and>
   (\<exists>w1. exec [(env0, Resolved 0)] (handleExecuteCommit ''tx_1'' heldWorld) =
            (Returned (Committed ''tx_1''), w1) \<and>
         trace w1 = trace heldWorld @ [Query 7 ''COMMIT'', Release 7] \<and>
         activeTransactions w1 = [] \<and>
         released (heap w1 0) \<and>
         handleExecuteCommit ''tx_1'' w1 = (Returned (TransactionNotFound ''tx_1''), w1) \<and>
         handleExecuteRollback ''tx_1'' w1 = (Returned (TransactionNotFound ''tx_1''), w1) \<and>
         execute_rollback ''tx_1'' w1 = (Returned (TransactionNotFound ''tx_1''), w1))"
proof -
  have ne: "''tx_1'' \<noteq> []" by simp
  have absent: "\<not> hasTransaction ''tx_1'' emptyWorld"
    by (simp add: hasTransaction_def emptyWorld_def)
  have stale: "getTransaction ''tx_1'' (markReleased 0 heldWorld) = Some 0"
    "released (heap (markReleased 0 heldWorld) 0)"
    by (simp_all add: heldWorld_eq getTransaction_def markReleased_def)
  have reg: "activeTransactions (markReleased 0 heldWorld) = [(''tx_1'', 0)]"
    "activeTransactions heldWorld = [(''tx_1'', 0)]"
    by (simp_all add: heldWorld_eq markReleased_def)
  from commit_rollback_idempotent [where tid = "''tx_1''" and w = emptyWorld] ne absent
  have 1: "handleExecuteCommit ''tx_1'' emptyWorld = (Returned (TransactionNotFound ''tx_1''), emptyWorld)"
    by blast
  from commit_rollback_idempotent [where tid = "''tx_1''" and w = "markReleased 0 heldWorld" and r = 0]
    ne stale
  have 2: "handleExecuteRollback ''tx_1'' (markReleased 0 heldWorld) =
     (Returned (AlreadyReleased ''tx_1''), removeTransaction ''tx_1'' (markReleased 0 heldWorld))"
    and "activeTransactions (removeTransaction ''tx_1'' (markReleased 0 heldWorld)) =
        filter (\<lambda>p. fst p \<noteq> ''tx_1'') (activeTransactions (markReleased 0 heldWorld))"
    by blast+
  then have 3: "activeTransactions (removeTransaction ''tx_1'' (markReleased 0 heldWorld)) = []"
    by (simp add: reg)
  from commit_rollback_idempotent [where tid = "''tx_1''" and w = heldWorld and r = 0
      and e = env0 and k = 0] ne held_entry(1,2)
  have "\<exists>w1. exec [(env0, Resolved 0)] (handleExecuteCommit ''tx_1'' heldWorld) =
            (Returned (Committed ''tx_1''), w1) \<and>
         trace w1 = trace heldWorld @
           [Query (client (heap heldWorld 0)) ''COMMIT'', Release (client (heap heldWorld 0))] \<and>
         activeTransactions w1 = filter (\<lambda>p. fst p \<noteq> ''tx_1'') (activeTransactions heldWorld) \<and>
         released (heap w1 0) \<and>
         handleExecuteCommit ''tx_1'' w1 = (Returned (TransactionNotFound ''tx_1''), w1) \<and>
         handleExecuteRollback ''tx_1'' w1 = (Returned (TransactionNotFound ''tx_1''), w1) \<and>
         execute_rollback ''tx_1'' w1 = (Returned (TransactionNotFound ''tx_1''), w1)"
    by blast
  then have 4: "\<exists>w1. exec [(env0, Resolved 0)] (handleExecuteCommit ''tx_1'' heldWorld) =
            (Returned (Committed ''tx_1''), w1) \<and>
         trace w1 = trace heldWorld @ [Query 7 ''COMMIT'', Release 7] \<and>
         activeTransactions w1 = [] \<and>
         released (heap w1 0) \<and>
         handleExecuteCommit ''tx_1'' w1 = (Returned (TransactionNotFound ''tx_1''), w1) \<and>
         handleExecuteRollback ''tx_1'' w1 = (Returned (TransactionNotFound ''tx_1''), w1) \<and>
         execute_rollback ''tx_1'' w1 = (Returned (TransactionNotFound ''tx_1''), w1)"
    by (simp add: held_entry(3) reg)
  from 1 2 3 4 show ?thesis by blast
qed

text \<open>
  The \<open>execute_rollback\<close> tool as index.ts wires it has no test for a missing
  identifier: absent identifiers, the empty one included, get \<open>TransactionNotFound\<close>.
  When its \<open>ROLLBACK\<close> fails, the answer is the text of the error and the entry stays as
  it was.
\<close>

lemma execute_rollback_lifecycle:
  "(\<not> hasTransaction tid w \<longrightarrow>
      execute_rollback tid w = (Returned (TransactionNotFound tid), w)) \<and>
   (getTransaction tid w = Some r \<and> released (heap w r) \<longrightarrow>
      execute_rollback tid w = (Returned (AlreadyReleased tid), removeTransaction tid w)) \<and>
   (getTransaction tid w = Some r \<and> \<not> released (heap w r) \<longrightarrow>
      exec [(e, Resolved k)] (execute_rollback tid w) =
        (Returned (RolledBack tid),
         releaseAndRemove r tid (query (client (heap w r)) ''ROLLBACK'' w)) \<and>
      exec [(e, Rejected)] (execute_rollback tid w) =
        (Returned ErrorText, query (client (heap w r)) ''ROLLBACK'' w))"
  by (simp add: execute_rollback_def hasTransaction_iff)

section \<open>Read query\<close>

text \<open>
  C5 (amended). \<open>handleExecuteQuery\<close> first awaits \<open>pool.connect()\<close>; when that fails the
  failure is thrown. Once a connection is acquired, a request whose SQL is missing or is
  not classified read-only is rejected (\<open>NotReadOnly\<close> for a statement that is not
  read-only) with no statement issued on the connection, and the connection is released
  before the answer is returned, so it is not held past the classifier's check.
\<close>

theorem read_query_rejection:
  "handleExecuteQuery sqlText w = (QueryConnect sqlText, w) \<and>
   exec ((e, Rejected) # rest) (handleExecuteQuery sqlText w) = (Threw, w) \<and>
   (sqlText = [] \<or> \<not> isReadOnlyQuery sqlText \<longrightarrow>
     (\<exists>k. exec ((e, Resolved c) # rest) (handleExecuteQuery sqlText w) =
           (Returned (if sqlText = [] then NoSql else NotReadOnly),
            w\<lparr>trace := trace w @ Acquire c # replicate (Suc k) (Release c)\<rparr>)))"
proof -
  have "exec ((e, Resolved c) # rest) (handleExecuteQuery sqlText w) =
           (Returned (if sqlText = [] then NoSql else NotReadOnly),
            w\<lparr>trace := trace w @ Acquire c # replicate (Suc (Suc 0)) (Release c)\<rparr>)"
    if "sqlText = [] \<or> \<not> isReadOnlyQuery sqlText"
    using that by (auto simp: handleExecuteQuery_def exec_ended world_ops Let_def)
  then show ?thesis
    by (auto simp: handleExecuteQuery_def exec_ended simp del: replicate_Suc)
qed

text \<open>
  C5, as stated, fails at \<open>INSERT INTO t VALUES (1)\<close>: the handler is suspended at
  \<open>pool.connect()\<close> before it looks at the statement; the rejection comes after client 7 was
  acquired, and when the pool fails the answer is the pool's error.
\<close>

theorem read_query_acquires_first_counterexample:
  "\<not> isReadOnlyQuery ''INSERT INTO t VALUES (1)'' \<and>
   handleExecuteQuery ''INSERT INTO t VALUES (1)'' emptyWorld =
     (QueryConnect ''INSERT INTO t VALUES (1)'', emptyWorld) \<and>
   exec [(env0, Resolved 7)] (handleExecuteQuery ''INSERT INTO t VALUES (1)'' emptyWorld) =
     (Returned NotReadOnly, emptyWorld\<lparr>trace := [Acquire 7, Release 7, Release 7]\<rparr>) \<and>
   exec [(env0, Rejected)] (handleExecuteQuery ''INSERT INTO t VALUES (1)'' emptyWorld) =
     (Threw, emptyWorld)"
  using insert_not_read_only by (simp add: handleExecuteQuery_def emptyWorld_def world_ops)

text \<open>
  The amended C5 at the same statement.
\<close>

theorem read_query_rejection_witness:
  "\<not> isReadOnlyQuery ''INSERT INTO t VALUES (1)'' \<and>
   (\<exists>k. exec [(env0, Resolved 7)] (handleExecuteQuery ''INSERT INTO t VALUES (1)'' emptyWorld) =
         (Returned NotReadOnly,
          emptyWorld\<lparr>trace := trace emptyWorld @ Acquire 7 # replicate (Suc k) (Release 7)\<rparr>))"
proof -
  from read_query_rejection [of "''INSERT INTO t VALUES (1)''" emptyWorld env0 "[]" 7]
    insert_not_read_only
  have "\<exists>k. exec [(env0, Resolved 7)] (handleExecuteQuery ''INSERT INTO t VALUES (1)'' emptyWorld) =
         (Returned (if ''INSERT INTO t VALUES (1)'' = [] then NoSql else NotReadOnly),
          emptyWorld\<lparr>trace := trace emptyWorld @ Acquire 7 # replicate (Suc k) (Release 7)\<rparr>)"
    by blast
  with insert_not_read_only show ?thesis by simp
qed

text \<open>
  When the statement of a read-only query fails, the \<open>finally\<close> block releases the
  connection and the error is thrown; there is no \<open>catch\<close>, and no \<open>ROLLBACK\<close>.
\<close>

lemma read_query_failure:
  assumes "sqlText \<noteq> []" "isReadOnlyQuery sqlText"
  shows "exec ((e1, Resolved c) # (e2, Resolved b) # (e3, Rejected) # rest)
              (handleExecuteQuery sqlText w) =
         (Threw, safelyReleaseClient c (query c sqlText
                   (query c ''BEGIN TRANSACTION READ ONLY'' (record_event (Acquire c) w))))"
  using assms by (simp add: handleExecuteQuery_def exec_ended Let_def)

text \<open>
  C4. The claim asks for a rollback and then a release when the statement of a read-only
  query fails. \<open>SELECT 1/0\<close> passes the classifier; when it fails, the handler releases
  the connection and throws, and no \<open>ROLLBACK\<close> was issued: the connection goes back to the
  pool inside the transaction that \<open>BEGIN TRANSACTION READ ONLY\<close> opened. The write path
  does issue \<open>ROLLBACK\<close> before the release when its statement fails.
\<close>

theorem read_query_failure_no_rollback:
  "isReadOnlyQuery ''SELECT 1/0'' \<and>
   exec [(env0, Resolved 7), (env0, Resolved 0), (env0, Rejected)]
        (handleExecuteQuery ''SELECT 1/0'' emptyWorld) =
     (Threw, emptyWorld\<lparr>trace := [Acquire 7, Query 7 ''BEGIN TRANSACTION READ ONLY'',
                                  Query 7 ''SELECT 1/0'', Release 7]\<rparr>)"
  using select_read_only by (simp add: handleExecuteQuery_def emptyWorld_def world_ops)

section \<open>Write execute\<close>

lemma dml_success:
  "sqlText \<noteq> [] \<Longrightarrow>
   exec ((e1, Resolved c) # (e2, Resolved b) # (e3, Resolved n) # rest)
        (handleExecuteDML sqlText tmo w) =
   (Returned (Pending (newId e2) n tmo),
    addTransaction (now e3) (newId e2) c sqlText
      (query c sqlText (query c ''BEGIN'' (record_event (Acquire c) w))))"
  by (simp add: handleExecuteDML_def exec_ended Let_def)

lemma dml_failure:
  "sqlText \<noteq> [] \<Longrightarrow>
   exec ((e1, Resolved c) # (e2, Resolved b) # (e3, Rejected) # (e4, oc) # rest)
        (handleExecuteDML sqlText tmo w) =
   ((case oc of Resolved _ \<Rightarrow> Returned (StatementFailed sqlText) | Rejected \<Rightarrow> Threw),
    safelyReleaseClient c (query c ''ROLLBACK''
      (query c sqlText (query c ''BEGIN'' (record_event (Acquire c) w)))))"
  by (cases oc) (simp_all add: handleExecuteDML_def exec_ended Let_def)

lemma dml_registry_changed:
  assumes "exec os (handleExecuteDML sqlText tmo w) = (t, w')"
      and "activeTransactions w' \<noteq> activeTransactions w \<or> nextRef w' \<noteq> nextRef w"
  shows "sqlText \<noteq> [] \<and>
         (\<exists>e1 c e2 b e3 n rest. os = (e1, Resolved c) # (e2, Resolved b) # (e3, Resolved n) # rest)"
proof (cases os)
  case Nil
  with assms show ?thesis by (simp add: handleExecuteDML_def)
next
  case os1: (Cons p1 r1)
  obtain e1 o1 where p1: "p1 = (e1, o1)" by (cases p1)
  show ?thesis
  proof (cases o1)
    case Rejected
    with assms os1 p1 show ?thesis by (simp add: handleExecuteDML_def exec_ended)
  next
    case c: (Resolved c)
    show ?thesis
    proof (cases "sqlText = []")
      case True
      with assms os1 p1 c show ?thesis
        by (auto simp: handleExecuteDML_def exec_ended world_ops Let_def)
    next
      case ne: False
      show ?thesis
      proof (cases r1)
        case Nil
        with assms os1 p1 c ne show ?thesis
          by (auto simp: handleExecuteDML_def world_ops Let_def)
      next
        case os2: (Cons p2 r2)
        obtain e2 o2 where p2: "p2 = (e2, o2)" by (cases p2)
        show ?thesis
        proof (cases o2)
          case Rejected
          with assms os1 p1 c ne os2 p2 show ?thesis
            by (auto simp: handleExecuteDML_def exec_ended world_ops Let_def)
        next
          case b: (Resolved b)
          show ?thesis
          proof (cases r2)
            case Nil
            with assms os1 p1 c ne os2 p2 b show ?thesis
              by (auto simp: handleExecuteDML_def world_ops Let_def)
          next
            case os3: (Cons p3 r3)
            obtain e3 o3 where p3: "p3 = (e3, o3)" by (cases p3)
            show ?thesis
            proof (cases o3)
              case (Resolved n)
              with os1 p1 c ne os2 p2 b os3 p3 show ?thesis by simp
            next
              case rj: Rejected
              show ?thesis
              proof (cases r3)
                case Nil
                with assms os1 p1 c ne os2 p2 b os3 p3 rj show ?thesis
                  by (auto simp: handleExecuteDML_def world_ops Let_def)
              next
                case os4: (Cons p4 r4)
                obtain e4 o4 where p4: "p4 = (e4, o4)" by (cases p4)
                from assms os1 p1 c ne os2 p2 b os3 p3 rj os4 p4 show ?thesis
                  by (cases o4) (auto simp: handleExecuteDML_def exec_ended world_ops Let_def)
              qed
            qed
          qed
        qed
      qed
    qed
  qed
qed

text \<open>
  What a write-execute does, run alone. When connection, \<open>BEGIN\<close> and statement go
  through, one entry is \<open>set\<close> under the generated identifier and the connection is not
  released. When the statement fails, \<open>ROLLBACK\<close> is issued, the connection is released
  once and no entry is created; the answer is \<open>StatementFailed\<close> with the SQL when the
  \<open>ROLLBACK\<close> went through, and the handler throws when it did not. In every run that
  changes the registry the statement was run and resolved.
\<close>

lemma write_execute_runs:
  "(sqlText \<noteq> [] \<longrightarrow>
      (\<exists>w'. exec ((e1, Resolved c) # (e2, Resolved b) # (e3, Resolved n) # rest)
                 (handleExecuteDML sqlText tmo w) = (Returned (Pending (newId e2) n tmo), w') \<and>
            activeTransactions w' = AList.update (newId e2) (nextRef w) (activeTransactions w) \<and>
            (\<not> hasTransaction (newId e2) w \<longrightarrow> transactionCount w' = Suc (transactionCount w)) \<and>
            trace w' = trace w @ [Acquire c, Query c ''BEGIN'', Query c sqlText]) \<and>
      (\<exists>w'. exec ((e1, Resolved c) # (e2, Resolved b) # (e3, Rejected) # (e4, oc) # rest)
                 (handleExecuteDML sqlText tmo w) =
               ((case oc of Resolved _ \<Rightarrow> Returned (StatementFailed sqlText) | Rejected \<Rightarrow> Threw), w') \<and>
            activeTransactions w' = activeTransactions w \<and> nextRef w' = nextRef w \<and>
            trace w' = trace w @ [Acquire c, Query c ''BEGIN'', Query c sqlText,
                                  Query c ''ROLLBACK'', Release c])) \<and>
   (\<forall>os t w'. exec os (handleExecuteDML sqlText tmo w) = (t, w') \<and>
        (activeTransactions w' \<noteq> activeTransactions w \<or> nextRef w' \<noteq> nextRef w) \<longrightarrow>
        sqlText \<noteq> [] \<and>
        (\<exists>e1 c e2 b e3 n rest.
            os = (e1, Resolved c) # (e2, Resolved b) # (e3, Resolved n) # rest))"
proof (intro conjI impI allI)
  assume ne: "sqlText \<noteq> []"
  show "\<exists>w'. exec ((e1, Resolved c) # (e2, Resolved b) # (e3, Resolved n) # rest)
                 (handleExecuteDML sqlText tmo w) = (Returned (Pending (newId e2) n tmo), w') \<and>
            activeTransactions w' = AList.update (newId e2) (nextRef w) (activeTransactions w) \<and>
            (\<not> hasTransaction (newId e2) w \<longrightarrow> transactionCount w' = Suc (transactionCount w)) \<and>
            trace w' = trace w @ [Acquire c, Query c ''BEGIN'', Query c sqlText]"
    unfolding dml_success [OF ne]
    by (simp add: world_ops length_update_new)
  show "\<exists>w'. exec ((e1, Resolved c) # (e2, Resolved b) # (e3, Rejected) # (e4, oc) # rest)
                 (handleExecuteDML sqlText tmo w) =
               ((case oc of Resolved _ \<Rightarrow> Returned (StatementFailed sqlText) | Rejected \<Rightarrow> Threw), w') \<and>
            activeTransactions w' = activeTransactions w \<and> nextRef w' = nextRef w \<and>
            trace w' = trace w @ [Acquire c, Query c ''BEGIN'', Query c sqlText,
                                  Query c ''ROLLBACK'', Release c]"
    unfolding dml_failure [OF ne]
    by (simp add: world_ops)
next
  fix os t w'
  assume "exec os (handleExecuteDML sqlText tmo w) = (t, w') \<and>
        (activeTransactions w' \<noteq> activeTransactions w \<or> nextRef w' \<noteq> nextRef w)"
  then show "sqlText \<noteq> []"
    and "\<exists>e1 c e2 b e3 n rest.
            os = (e1, Resolved c) # (e2, Resolved b) # (e3, Resolved n) # rest"
    using dml_registry_changed by blast+
qed

text \<open>
  C7. The claim asks that when the statement of a write-execute fails, the transaction is
  rolled back, the connection is released, no entry is registered and the failure answer
  carries the offending SQL. In the run below the insert fails and the \<open>ROLLBACK\<close> that
  follows fails too: the connection is released and nothing is registered, but the inner
  \<open>catch\<close> is left by the error of the \<open>ROLLBACK\<close>, the outer one throws it on, and the
  answer of the tool is that error's text, without the SQL.
\<close>

theorem failed_rollback_answer_without_sql:
  "toolCatch (exec [(env0, Resolved 7), (env0, Resolved 0), (env0, Rejected), (env0, Rejected)]
               (execute_dml_ddl_dcl_tcl cfg0 ''INSERT INTO t VALUES (1)'' emptyWorld)) =
     (Returned ErrorText,
      emptyWorld\<lparr>trace := [Acquire 7, Query 7 ''BEGIN'', Query 7 ''INSERT INTO t VALUES (1)'',
                            Query 7 ''ROLLBACK'', Release 7]\<rparr>) \<and>
   ErrorText \<noteq> StatementFailed ''INSERT INTO t VALUES (1)''"
  by (simp add: toolCatch_def concrete)

text \<open>
  The same at an insert into the empty registry: the run that registers \<open>tx_1\<close>, and
  the run whose statement fails and whose \<open>ROLLBACK\<close> goes through.
\<close>

lemma write_execute_runs_example:
  "insertSql \<noteq> [] \<and>
   (\<exists>w'. exec [(env0, Resolved 7), (env0, Resolved 0), (env0, Resolved 1)]
              (handleExecuteDML insertSql 15000 emptyWorld) =
            (Returned (Pending ''tx_1'' 1 15000), w') \<and>
          activeTransactions w' = [(''tx_1'', 0)] \<and>
          transactionCount w' = 1 \<and>
          trace w' = [Acquire 7, Query 7 ''BEGIN'', Query 7 insertSql]) \<and>
   (\<exists>w'. exec [(env0, Resolved 7), (env0, Resolved 0), (env0, Rejected), (env0, Resolved 0)]
              (handleExecuteDML insertSql 15000 emptyWorld) =
            (Returned (StatementFailed insertSql), w') \<and>
          activeTransactions w' = [] \<and>
          trace w' = [Acquire 7, Query 7 ''BEGIN'', Query 7 insertSql,
                      Query 7 ''ROLLBACK'', Release 7]) \<and>
   activeTransactions heldWorld \<noteq> activeTransactions emptyWorld \<and>
   (\<exists>e1 c e2 b e3 n rest.
      [(env0, Resolved 7), (env0, Resolved 0), (env0, Resolved 1)] =
      (e1, Resolved c) # (e2, Resolved b) # (e3, Resolved n) # rest)"
proof -
  have ne: "insertSql \<noteq> []" by (simp add: insertSql_def)
  have absent: "\<not> hasTransaction ''tx_1'' emptyWorld"
    by (simp add: hasTransaction_def emptyWorld_def)
  note w = write_execute_runs [where sqlText = insertSql and w = emptyWorld
      and tmo = 15000 and ?e1.0 = env0 and ?e2.0 = env0 and ?e3.0 = env0 and ?e4.0 = env0
      and c = 7 and b = 0 and n = 1 and oc = "Resolved 0" and rest = "[]"]
  have run: "exec [(env0, Resolved 7), (env0, Resolved 0), (env0, Resolved 1)]
               (handleExecuteDML insertSql 15000 emptyWorld) =
             (Returned (Pending ''tx_1'' 1 15000), heldWorld)"
    using held_run by (simp add: execute_dml_ddl_dcl_tcl_def cfg0_def transactionCount_def
        emptyWorld_def)
  have changed: "activeTransactions heldWorld \<noteq> activeTransactions emptyWorld"
    by (simp add: heldWorld_eq emptyWorld_def)
  from w run changed
  have only: "\<exists>e1 c e2 b e3 n rest.
      [(env0, Resolved 7), (env0, Resolved 0), (env0, Resolved 1)] =
      (e1, Resolved c) # (e2, Resolved b) # (e3, Resolved n) # rest"
    by blast
  from w ne absent
  have "(\<exists>w'. exec [(env0, Resolved 7), (env0, Resolved 0), (env0, Resolved 1)]
              (handleExecuteDML insertSql 15000 emptyWorld) =
            (Returned (Pending ''tx_1'' 1 15000), w') \<and>
          activeTransactions w' = [(''tx_1'', 0)] \<and>
          transactionCount w' = 1 \<and>
          trace w' = [Acquire 7, Query 7 ''BEGIN'', Query 7 insertSql]) \<and>
   (\<exists>w'. exec [(env0, Resolved 7), (env0, Resolved 0), (env0, Rejected), (env0, Resolved 0)]
              (handleExecuteDML insertSql 15000 emptyWorld) =
            (Returned (StatementFailed insertSql), w') \<and>
          activeTransactions w' = [] \<and>
          trace w' = [Acquire 7, Query 7 ''BEGIN'', Query 7 insertSql,
                      Query 7 ''ROLLBACK'', Release 7])"
    by (simp add: env0_def emptyWorld_def transactionCount_def) blast
  with ne changed only show ?thesis by blast
qed

lemma count_after_resolution:
  assumes "distinct (map fst (activeTransactions w))" "getTransaction tid w = Some r"
  shows "Suc (transactionCount (releaseAndRemove r tid (query c text w))) = transactionCount w"
proof -
  from assms(2) have "tid \<in> set (map fst (activeTransactions w))"
    using hasTransaction_iff [of tid w] by (simp add: hasTransaction_def)
  with assms(1) show ?thesis
    by (simp add: world_ops length_delete_present)
qed

text \<open>
  C6. When the number of entries has reached \<open>maxConcurrentTransactions\<close> the write tool
  answers \<open>TooManyTransactions\<close> at once and leaves the world untouched: no connection is
  asked for. Below the ceiling it is \<open>handleExecuteDML\<close>. From a registry that is exactly
  full, once one entry is resolved by a commit or a rollback, the next write-execute
  whose statements go through is registered.
\<close>

theorem write_execute_ceiling:
  "(int (transactionCount w) \<ge> maxConcurrentTransactions cfg \<longrightarrow>
      execute_dml_ddl_dcl_tcl cfg sqlText w = (Returned TooManyTransactions, w)) \<and>
   (int (transactionCount w) < maxConcurrentTransactions cfg \<longrightarrow>
      execute_dml_ddl_dcl_tcl cfg sqlText w =
        handleExecuteDML sqlText (transactionTimeoutMs cfg) w) \<and>
   (int (transactionCount w) = maxConcurrentTransactions cfg \<and>
    distinct (map fst (activeTransactions w)) \<and>
    tid \<noteq> [] \<and> getTransaction tid w = Some r \<and> \<not> released (heap w r) \<and> sqlText \<noteq> [] \<longrightarrow>
      (\<exists>w1 w2. exec [(e, Resolved k)] (handleExecuteCommit tid w) = (Returned (Committed tid), w1) \<and>
               exec [(e1, Resolved c), (e2, Resolved b), (e3, Resolved n)]
                    (execute_dml_ddl_dcl_tcl cfg sqlText w1) =
                 (Returned (Pending (newId e2) n (transactionTimeoutMs cfg)), w2)) \<and>
      (\<exists>w1 w2. exec [(e, Resolved k)] (handleExecuteRollback tid w) = (Returned (RolledBack tid), w1) \<and>
               exec [(e1, Resolved c), (e2, Resolved b), (e3, Resolved n)]
                    (execute_dml_ddl_dcl_tcl cfg sqlText w1) =
                 (Returned (Pending (newId e2) n (transactionTimeoutMs cfg)), w2)))"
proof (intro conjI impI)
  assume "maxConcurrentTransactions cfg \<le> int (transactionCount w)"
  then show "execute_dml_ddl_dcl_tcl cfg sqlText w = (Returned TooManyTransactions, w)"
    by (simp add: execute_dml_ddl_dcl_tcl_def)
next
  assume "int (transactionCount w) < maxConcurrentTransactions cfg"
  then show "execute_dml_ddl_dcl_tcl cfg sqlText w =
        handleExecuteDML sqlText (transactionTimeoutMs cfg) w"
    by (simp add: execute_dml_ddl_dcl_tcl_def)
next
  assume a: "int (transactionCount w) = maxConcurrentTransactions cfg \<and>
    distinct (map fst (activeTransactions w)) \<and>
    tid \<noteq> [] \<and> getTransaction tid w = Some r \<and> \<not> released (heap w r) \<and> sqlText \<noteq> []"
  have below: "\<not> maxConcurrentTransactions cfg
        \<le> int (transactionCount (releaseAndRemove r tid (query c' q w)))" for c' q
    using a count_after_resolution [of w tid r c' q] by linarith
  show "\<exists>w1 w2. exec [(e, Resolved k)] (handleExecuteCommit tid w) = (Returned (Committed tid), w1) \<and>
               exec [(e1, Resolved c), (e2, Resolved b), (e3, Resolved n)]
                    (execute_dml_ddl_dcl_tcl cfg sqlText w1) =
                 (Returned (Pending (newId e2) n (transactionTimeoutMs cfg)), w2)"
    using a by (simp add: commit_success execute_dml_ddl_dcl_tcl_def dml_success below)
  show "\<exists>w1 w2. exec [(e, Resolved k)] (handleExecuteRollback tid w) = (Returned (RolledBack tid), w1) \<and>
               exec [(e1, Resolved c), (e2, Resolved b), (e3, Resolved n)]
                    (execute_dml_ddl_dcl_tcl cfg sqlText w1) =
                 (Returned (Pending (newId e2) n (transactionTimeoutMs cfg)), w2)"
    using a by (simp add: rollback_success execute_dml_ddl_dcl_tcl_def dml_success below)
qed

text \<open>
  C6 with a ceiling of one: refused while \<open>tx_1\<close> is held, let through on the empty
  registry, and let through again after \<open>tx_1\<close> is committed.
\<close>

theorem write_execute_ceiling_witness:
  "execute_dml_ddl_dcl_tcl cfg1 insertSql heldWorld = (Returned TooManyTransactions, heldWorld) \<and>
   execute_dml_ddl_dcl_tcl cfg1 insertSql emptyWorld =
     handleExecuteDML insertSql (transactionTimeoutMs cfg1) emptyWorld \<and>
   (\<exists>w1 w2. exec [(env0, Resolved 0)] (handleExecuteCommit ''tx_1'' heldWorld) =
              (Returned (Committed ''tx_1''), w1) \<and>
            exec [(env1, Resolved 8), (env1, Resolved 0), (env1, Resolved 1)]
                 (execute_dml_ddl_dcl_tcl cfg1 insertSql w1) =
              (Returned (Pending (newId env1) 1 (transactionTimeoutMs cfg1)), w2))"
proof -
  have full: "int (transactionCount heldWorld) = maxConcurrentTransactions cfg1"
    by (simp add: held_entry cfg1_def)
  have room: "int (transactionCount emptyWorld) < maxConcurrentTransactions cfg1"
    by (simp add: transactionCount_def emptyWorld_def cfg1_def)
  have ne: "''tx_1'' \<noteq> []" "insertSql \<noteq> []" by (simp_all add: insertSql_def)
  note at_held = write_execute_ceiling [where w = heldWorld and cfg = cfg1 and sqlText = insertSql
      and tid = "''tx_1''" and r = 0 and e = env0 and k = 0 and ?e1.0 = env1 and ?e2.0 = env1
      and ?e3.0 = env1 and c = 8 and b = 0 and n = 1]
  note at_empty = write_execute_ceiling [where w = emptyWorld and cfg = cfg1 and sqlText = insertSql]
  from at_held full have 1:
    "execute_dml_ddl_dcl_tcl cfg1 insertSql heldWorld = (Returned TooManyTransactions, heldWorld)"
    by simp
  from at_empty room have 2: "execute_dml_ddl_dcl_tcl cfg1 insertSql emptyWorld =
     handleExecuteDML insertSql (transactionTimeoutMs cfg1) emptyWorld"
    by blast
  from at_held full ne held_entry(1,2,4) have 3:
    "\<exists>w1 w2. exec [(env0, Resolved 0)] (handleExecuteCommit ''tx_1'' heldWorld) =
              (Returned (Committed ''tx_1''), w1) \<and>
            exec [(env1, Resolved 8), (env1, Resolved 0), (env1, Resolved 1)]
                 (execute_dml_ddl_dcl_tcl cfg1 insertSql w1) =
              (Returned (Pending (newId env1) 1 (transactionTimeoutMs cfg1)), w2)"
    by blast
  from 1 2 3 show ?thesis by blast
qed

section \<open>Shutdown drain\<close>

lemma cleanupLoop_completes:
  assumes "distinct (map snd snap)"
      and "length (filter (\<lambda>p. \<not> released (heap w (snd p))) snap) \<le> length os"
  shows "\<exists>w'. exec os (cleanupLoop snap w) = (Finished, w') \<and>
           activeTransactions w' = [] \<and>
           trace w' = trace w @ concat (map (\<lambda>p. if released (heap w (snd p)) then []
                         else [Query (client (heap w (snd p))) ''ROLLBACK'',
                               Release (client (heap w (snd p)))]) snap) \<and>
           (\<forall>p \<in> set snap. released (heap w' (snd p))) \<and>
           (\<forall>a. a \<notin> snd ` set snap \<longrightarrow> heap w' a = heap w a)"
  using assms
proof (induction snap arbitrary: w os)
  case Nil
  then show ?case by (simp add: exec_ended)
next
  case (Cons p rest)
  obtain tid r where p: "p = (tid, r)" by (cases p)
  from Cons.prems(1) p have fresh: "r \<notin> snd ` set rest" and dist: "distinct (map snd rest)"
    by auto
  show ?case
  proof (cases "released (heap w r)")
    case True
    let ?w1 = "removeTransaction tid w"
    have h1: "heap ?w1 = heap w" and t1: "trace ?w1 = trace w"
      by (simp_all add: removeTransaction_def)
    from Cons.prems(2) p True
    have "length (filter (\<lambda>p. \<not> released (heap ?w1 (snd p))) rest) \<le> length os"
      by (simp add: h1)
    from Cons.IH [OF dist this] obtain w' where
      w': "exec os (cleanupLoop rest ?w1) = (Finished, w')" "activeTransactions w' = []"
        "trace w' = trace ?w1 @ concat (map (\<lambda>p. if released (heap ?w1 (snd p)) then []
                         else [Query (client (heap ?w1 (snd p))) ''ROLLBACK'',
                               Release (client (heap ?w1 (snd p)))]) rest)"
        "\<forall>p \<in> set rest. released (heap w' (snd p))"
        "\<forall>a. a \<notin> snd ` set rest \<longrightarrow> heap w' a = heap ?w1 a"
      by blast
    from w'(5) fresh True have "released (heap w' r)" by (simp add: h1)
    with w' [unfolded h1 t1] p True show ?thesis by simp
  next
    case False
    with Cons.prems(2) p obtain e oc os' where os: "os = (e, oc) # os'"
      by (cases os) auto
    let ?w1 = "releaseAndRemove r tid (query (client (heap w r)) ''ROLLBACK'' w)"
    have h1: "heap ?w1 = (heap w)(r := (heap w r)\<lparr>released := True\<rparr>)"
      and t1: "trace ?w1 = trace w @ [Query (client (heap w r)) ''ROLLBACK'',
                                       Release (client (heap w r))]"
      by (simp_all add: world_ops)
    have same: "heap ?w1 (snd q) = heap w (snd q)" if "q \<in> set rest" for q
      using that fresh by (auto simp: h1)
    have filt: "filter (\<lambda>p. \<not> released (heap ?w1 (snd p))) rest
              = filter (\<lambda>p. \<not> released (heap w (snd p))) rest"
      by (rule filter_cong) (simp_all add: same)
    have evs: "map (\<lambda>p. if released (heap ?w1 (snd p)) then []
                         else [Query (client (heap ?w1 (snd p))) ''ROLLBACK'',
                               Release (client (heap ?w1 (snd p)))]) rest
             = map (\<lambda>p. if released (heap w (snd p)) then []
                         else [Query (client (heap w (snd p))) ''ROLLBACK'',
                               Release (client (heap w (snd p)))]) rest"
      by (rule map_cong) (simp_all add: same)
    from Cons.prems(2) p False os
    have "length (filter (\<lambda>p. \<not> released (heap ?w1 (snd p))) rest) \<le> length os'"
      by (simp add: filt)
    from Cons.IH [OF dist this] obtain w' where
      w': "exec os' (cleanupLoop rest ?w1) = (Finished, w')" "activeTransactions w' = []"
        "trace w' = trace ?w1 @ concat (map (\<lambda>p. if released (heap ?w1 (snd p)) then []
                         else [Query (client (heap ?w1 (snd p))) ''ROLLBACK'',
                               Release (client (heap ?w1 (snd p)))]) rest)"
        "\<forall>p \<in> set rest. released (heap w' (snd p))"
        "\<forall>a. a \<notin> snd ` set rest \<longrightarrow> heap w' a = heap ?w1 a"
      by blast
    from w'(5) fresh have r': "released (heap w' r)" by (simp add: h1)
    have frame: "\<forall>a. a \<notin> snd ` set (p # rest) \<longrightarrow> heap w' a = heap w a"
      using w'(5) p by (auto simp: h1)
    have run: "exec os (cleanupLoop (p # rest) w) = (Finished, w')"
      using p False os w'(1) by simp
    have tr: "trace w' = trace w @ concat (map (\<lambda>p. if released (heap w (snd p)) then []
                         else [Query (client (heap w (snd p))) ''ROLLBACK'',
                               Release (client (heap w (snd p)))]) (p # rest))"
      using w'(3) p False unfolding evs t1 by simp
    from run w'(2) tr r' w'(4) frame p show ?thesis by auto
  qed
qed

lemma cleanupLoop_finished:
  "cleanupLoop snap w = (Finished, w') \<Longrightarrow> activeTransactions w' = []"
  by (induction snap arbitrary: w) (auto split: if_splits)

lemma cleanupLoop_shrinks:
  "cleanupLoop snap w = (CleanupRollback r tid rest, w') \<Longrightarrow> length rest < length snap"
proof (induction snap arbitrary: w)
  case Nil
  then show ?case by simp
next
  case (Cons p snap)
  obtain k a where p: "p = (k, a)" by (cases p)
  show ?case
  proof (cases "released (heap w a)")
    case True
    with Cons.prems p have "cleanupLoop snap (removeTransaction k w) = (CleanupRollback r tid rest, w')"
      by simp
    then have "length rest < length snap" by (rule Cons.IH)
    then show ?thesis by simp
  next
    case False
    with Cons.prems p show ?thesis by simp
  qed
qed

text \<open>
  C9. The shutdown drain goes through a snapshot of the whole registry, in order, and
  each turn of its loop does the same from whatever world it runs in. An entry that is
  already released is taken out of the registry, and the loop goes on with the rest of
  the snapshot. For any other entry \<open>ROLLBACK\<close> is issued and awaited; whatever its outcome,
  the entry is marked released, its connection is released, the entry is taken out of the
  registry, and the loop goes on with the rest of the snapshot. The remaining snapshot
  gets shorter with every turn, and when the drain ends the registry is empty. Run alone
  on a registry of distinct objects, with an outcome for each rollback, the drain ends
  with every entry released, in the order of the snapshot.
\<close>

theorem cleanupTransactions_drains:
  "cleanupTransactions w = cleanupLoop (activeTransactions w) w \<and>
   (released (heap w r) \<longrightarrow>
      cleanupLoop ((tid, r) # rest) w = cleanupLoop rest (removeTransaction tid w) \<and>
      activeTransactions (removeTransaction tid w) =
        filter (\<lambda>p. fst p \<noteq> tid) (activeTransactions w) \<and>
      trace (removeTransaction tid w) = trace w \<and>
      heap (removeTransaction tid w) = heap w) \<and>
   (\<not> released (heap w r) \<longrightarrow>
      cleanupLoop ((tid, r) # rest) w =
        (CleanupRollback r tid rest,
         w\<lparr>trace := trace w @ [Query (client (heap w r)) ''ROLLBACK'']\<rparr>)) \<and>
   resume e oc (CleanupRollback r tid rest) wx = cleanupLoop rest (releaseAndRemove r tid wx) \<and>
   released (heap (releaseAndRemove r tid wx) r) \<and>
   (\<forall>a. a \<noteq> r \<longrightarrow> heap (releaseAndRemove r tid wx) a = heap wx a) \<and>
   trace (releaseAndRemove r tid wx) = trace wx @ [Release (client (heap wx r))] \<and>
   activeTransactions (releaseAndRemove r tid wx) =
     filter (\<lambda>p. fst p \<noteq> tid) (activeTransactions wx) \<and>
   (cleanupLoop snap wx = (Finished, w') \<longrightarrow> activeTransactions w' = []) \<and>
   (cleanupLoop snap wx = (CleanupRollback r tid rest, w') \<longrightarrow> length rest < length snap) \<and>
   (distinct (map snd (activeTransactions w)) \<and>
    length (filter (\<lambda>p. \<not> released (heap w (snd p))) (activeTransactions w)) \<le> length os \<longrightarrow>
      (\<exists>w'. exec os (cleanupTransactions w) = (Finished, w') \<and>
            activeTransactions w' = [] \<and>
            trace w' = trace w @ concat (map (\<lambda>p. if released (heap w (snd p)) then []
                          else [Query (client (heap w (snd p))) ''ROLLBACK'',
                                Release (client (heap w (snd p)))]) (activeTransactions w)) \<and>
            (\<forall>p \<in> set (activeTransactions w). released (heap w' (snd p)))))"
proof (intro conjI impI)
  show "cleanupTransactions w = cleanupLoop (activeTransactions w) w"
    by (simp add: cleanupTransactions_def)
next
  assume "released (heap w r)"
  then show "cleanupLoop ((tid, r) # rest) w = cleanupLoop rest (removeTransaction tid w)"
    by simp
next
  show "activeTransactions (removeTransaction tid w) =
        filter (\<lambda>p. fst p \<noteq> tid) (activeTransactions w)"
    by (simp add: removeTransaction_def delete_filter)
  show "trace (removeTransaction tid w) = trace w" "heap (removeTransaction tid w) = heap w"
    by (simp_all add: removeTransaction_def)
next
  assume "\<not> released (heap w r)"
  then show "cleanupLoop ((tid, r) # rest) w =
        (CleanupRollback r tid rest,
         w\<lparr>trace := trace w @ [Query (client (heap w r)) ''ROLLBACK'']\<rparr>)"
    by (simp add: world_ops)
next
  show "resume e oc (CleanupRollback r tid rest) wx = cleanupLoop rest (releaseAndRemove r tid wx)"
    by simp
  show "released (heap (releaseAndRemove r tid wx) r)"
    and "\<forall>a. a \<noteq> r \<longrightarrow> heap (releaseAndRemove r tid wx) a = heap wx a"
    and "trace (releaseAndRemove r tid wx) = trace wx @ [Release (client (heap wx r))]"
    and "activeTransactions (releaseAndRemove r tid wx) =
     filter (\<lambda>p. fst p \<noteq> tid) (activeTransactions wx)"
    by (simp_all add: world_ops delete_filter)
next
  assume "cleanupLoop snap wx = (Finished, w')"
  then show "activeTransactions w' = []" by (rule cleanupLoop_finished)
next
  assume "cleanupLoop snap wx = (CleanupRollback r tid rest, w')"
  then show "length rest < length snap" by (rule cleanupLoop_shrinks)
next
  assume "distinct (map snd (activeTransactions w)) \<and>
    length (filter (\<lambda>p. \<not> released (heap w (snd p))) (activeTransactions w)) \<le> length os"
  then have d: "distinct (map snd (activeTransactions w))"
    and l: "length (filter (\<lambda>p. \<not> released (heap w (snd p))) (activeTransactions w)) \<le> length os"
    by simp_all
  from cleanupLoop_completes [OF d l]
  show "\<exists>w'. exec os (cleanupTransactions w) = (Finished, w') \<and>
            activeTransactions w' = [] \<and>
            trace w' = trace w @ concat (map (\<lambda>p. if released (heap w (snd p)) then []
                          else [Query (client (heap w (snd p))) ''ROLLBACK'',
                                Release (client (heap w (snd p)))]) (activeTransactions w)) \<and>
            (\<forall>p \<in> set (activeTransactions w). released (heap w' (snd p)))"
    unfolding cleanupTransactions_def by blast
qed

text \<open>
  C9 with two entries held open, the first of which fails its \<open>ROLLBACK\<close>: the drain
  starts with \<open>tx_1\<close>, whose finalisation leaves only \<open>tx_2\<close> in the registry; both are
  marked and released, and the registry is empty at the end. An entry already released is
  only taken out.
\<close>

theorem cleanupTransactions_drains_witness:
  "cleanupTransactions twoHeld =
     (CleanupRollback 0 ''tx_1'' [(''tx_2'', 1)],
      twoHeld\<lparr>trace := trace twoHeld @ [Query 7 ''ROLLBACK'']\<rparr>) \<and>
   activeTransactions (releaseAndRemove 0 ''tx_1'' twoHeld) = [(''tx_2'', 1)] \<and>
   released (heap (releaseAndRemove 0 ''tx_1'' twoHeld) 0) \<and>
   cleanupLoop [(''tx_1'', 0)] (markReleased 0 heldWorld) =
     cleanupLoop [] (removeTransaction ''tx_1'' (markReleased 0 heldWorld)) \<and>
   activeTransactions (removeTransaction ''tx_1'' (markReleased 0 heldWorld)) = [] \<and>
   distinct (map snd (activeTransactions twoHeld)) \<and>
   (\<exists>w'. exec [(env0, Rejected), (env0, Resolved 0)] (cleanupTransactions twoHeld) = (Finished, w') \<and>
         activeTransactions w' = [] \<and>
         trace w' = trace twoHeld @ [Query 7 ''ROLLBACK'', Release 7, Query 8 ''ROLLBACK'', Release 8] \<and>
         released (heap w' 0) \<and> released (heap w' 1))"
proof -
  have d: "distinct (map snd (activeTransactions twoHeld))"
    by (simp add: twoHeld_eq)
  have l: "length (filter (\<lambda>p. \<not> released (heap twoHeld (snd p))) (activeTransactions twoHeld))
             \<le> length [(env0, Rejected), (env0, Resolved 0)]"
    by (simp add: twoHeld_eq)
  have reg: "activeTransactions twoHeld = [(''tx_1'', 0), (''tx_2'', 1)]"
    and h: "released (heap twoHeld 0) = False" "released (heap twoHeld (Suc 0)) = False"
      "client (heap twoHeld 0) = 7" "client (heap twoHeld (Suc 0)) = 8"
    by (simp_all add: twoHeld_eq)
  have stale: "released (heap (markReleased 0 heldWorld) 0)"
    and sreg: "activeTransactions (markReleased 0 heldWorld) = [(''tx_1'', 0)]"
    by (simp_all add: heldWorld_eq markReleased_def)
  note open_entry = cleanupTransactions_drains [where w = twoHeld and r = 0 and tid = "''tx_1''"
      and rest = "[(''tx_2'', 1)]" and wx = twoHeld
      and os = "[(env0, Rejected), (env0, Resolved 0)]"]
  note stale_entry = cleanupTransactions_drains [where w = "markReleased 0 heldWorld" and r = 0
      and tid = "''tx_1''" and rest = "[]"]
  from open_entry h(1) have 1: "cleanupTransactions twoHeld =
     (CleanupRollback 0 ''tx_1'' [(''tx_2'', 1)],
      twoHeld\<lparr>trace := trace twoHeld @ [Query 7 ''ROLLBACK'']\<rparr>)"
    by (simp add: reg h)
  from open_entry have 2: "activeTransactions (releaseAndRemove 0 ''tx_1'' twoHeld) = [(''tx_2'', 1)]"
    and 3: "released (heap (releaseAndRemove 0 ''tx_1'' twoHeld) 0)"
    by (simp_all add: reg)
  from stale_entry stale have 4: "cleanupLoop [(''tx_1'', 0)] (markReleased 0 heldWorld) =
     cleanupLoop [] (removeTransaction ''tx_1'' (markReleased 0 heldWorld))"
    and 5: "activeTransactions (removeTransaction ''tx_1'' (markReleased 0 heldWorld)) = []"
    by (simp_all add: sreg)
  from open_entry d l have
    "\<exists>w'. exec [(env0, Rejected), (env0, Resolved 0)] (cleanupTransactions twoHeld) = (Finished, w') \<and>
         activeTransactions w' = [] \<and>
         trace w' = trace twoHeld @ concat (map (\<lambda>p. if released (heap twoHeld (snd p)) then []
                          else [Query (client (heap twoHeld (snd p))) ''ROLLBACK'',
                                Release (client (heap twoHeld (snd p)))]) (activeTransactions twoHeld)) \<and>
         (\<forall>p \<in> set (activeTransactions twoHeld). released (heap w' (snd p)))"
    by blast
  then have 6:
    "\<exists>w'. exec [(env0, Rejected), (env0, Resolved 0)] (cleanupTransactions twoHeld) = (Finished, w') \<and>
         activeTransactions w' = [] \<and>
         trace w' = trace twoHeld @ [Query 7 ''ROLLBACK'', Release 7, Query 8 ''ROLLBACK'', Release 8] \<and>
         released (heap w' 0) \<and> released (heap w' 1)"
    by (simp add: reg h)
  from 1 2 3 4 5 d 6 show ?thesis by blast
qed

section \<open>The registry invariant\<close>

lemma extends_refl: "extends w w"
  by (simp add: extends_def)

lemma extends_trans: "extends w w1 \<Longrightarrow> extends w1 w2 \<Longrightarrow> extends w w2"
  by (auto simp: extends_def)

lemma entry_ok_extends: "entry_ok w p \<Longrightarrow> extends w w' \<Longrightarrow> entry_ok w' p"
  by (auto simp: entry_ok_def extends_def)

lemma task_ok_extends: "task_ok w t \<Longrightarrow> extends w w' \<Longrightarrow> task_ok w' t"
  by (cases t) (auto intro: entry_ok_extends)

lemma registry_ok_record_event: "registry_ok (record_event ev w) = registry_ok w"
  by (simp add: registry_ok_def entry_ok_def record_event_def)

lemma extends_record_event: "extends w (record_event ev w') = extends w w'"
  by (simp add: extends_def record_event_def)

lemma task_ok_record_event: "task_ok (record_event ev w) t = task_ok w t"
  by (cases t) (simp_all add: entry_ok_def record_event_def)

lemma entry_ok_record_event: "entry_ok (record_event ev w) p = entry_ok w p"
  by (simp add: entry_ok_def record_event_def)

lemma registry_ok_remove: "registry_ok w \<Longrightarrow> registry_ok (removeTransaction tid w)"
  by (auto simp: registry_ok_def entry_ok_def removeTransaction_def distinct_delete
      set_delete)

lemma extends_remove: "extends w (removeTransaction tid w)"
  by (simp add: extends_def removeTransaction_def)

lemma registry_ok_releaseAndRemove:
  assumes "registry_ok w" "entry_ok w (tid, r)"
  shows "registry_ok (releaseAndRemove r tid w)"
  using assms
  by (auto simp: registry_ok_def entry_ok_def world_ops distinct_delete set_delete)

lemma extends_releaseAndRemove: "extends w (releaseAndRemove r tid w)"
  by (simp add: extends_def world_ops)

lemma registry_ok_monitorFinally:
  assumes "registry_ok w" "entry_ok w (tid, r)"
  shows "registry_ok (monitorFinally r tid w)"
  using assms
  by (auto simp: registry_ok_def entry_ok_def world_ops distinct_delete set_delete)

lemma extends_monitorFinally: "extends w (monitorFinally r tid w)"
  by (simp add: extends_def world_ops)

lemma registry_ok_addTransaction:
  assumes "registry_ok w"
  shows "registry_ok (addTransaction timeNow tid c sqlText w)"
  using assms
  by (auto simp: registry_ok_def entry_ok_def addTransaction_def distinct_update
      dest!: set_update)

lemma extends_addTransaction: "extends w (addTransaction timeNow tid c sqlText w)"
  by (simp add: extends_def addTransaction_def)

lemma registry_ok_markTerminating: "registry_ok (markTerminating r w) = registry_ok w"
  by (auto simp: registry_ok_def entry_ok_def markTerminating_def)

lemma entry_ok_markTerminating: "entry_ok (markTerminating r w) p = entry_ok w p"
  by (simp add: entry_ok_def markTerminating_def)

lemma extends_markTerminating: "extends w (markTerminating r w)"
  by (simp add: extends_def markTerminating_def)

lemma cleanupLoop_ok:
  assumes "registry_ok w" "\<forall>p \<in> set snap. entry_ok w p" "cleanupLoop snap w = (t, w')"
  shows "registry_ok w' \<and> task_ok w' t \<and> extends w w'"
  using assms
proof (induction snap arbitrary: w)
  case Nil
  then show ?case by (auto simp: registry_ok_def extends_def)
next
  case (Cons p rest)
  obtain tid r where p: "p = (tid, r)" by (cases p)
  show ?case
  proof (cases "released (heap w r)")
    case True
    let ?w1 = "removeTransaction tid w"
    have "registry_ok ?w1" using Cons.prems(1) by (rule registry_ok_remove)
    moreover have "\<forall>p \<in> set rest. entry_ok ?w1 p"
      using Cons.prems(2) by (auto intro: entry_ok_extends extends_remove)
    moreover have "cleanupLoop rest ?w1 = (t, w')"
      using Cons.prems(3) p True by simp
    ultimately have "registry_ok w' \<and> task_ok w' t \<and> extends ?w1 w'"
      by (rule Cons.IH)
    then show ?thesis
      using extends_trans [OF extends_remove] by blast
  next
    case False
    with Cons.prems p show ?thesis
      by (auto simp: query_def registry_ok_record_event entry_ok_record_event
          extends_record_event extends_refl)
  qed
qed

lemma sweepLoop_ok:
  assumes "registry_ok w" "\<forall>p \<in> set snap. entry_ok w p"
      and "sweepLoop timeNow tmo snap w = (ts, w')"
  shows "registry_ok w' \<and> (\<forall>t \<in> set ts. task_ok w' t) \<and> extends w w'"
  using assms
proof (induction snap arbitrary: w ts)
  case Nil
  then show ?case by (simp add: extends_refl)
next
  case (Cons p rest)
  obtain tid r where p: "p = (tid, r)" by (cases p)
  from Cons.prems(2) have rest_ok: "\<forall>p \<in> set rest. entry_ok w p" by simp
  show ?case
  proof (cases "\<not> released (heap w r) \<and>
                timeNow - startTime (heap w r) > tmo \<and> state (heap w r) = Active")
    case False
    with Cons.prems(3) p have "sweepLoop timeNow tmo rest w = (ts, w')"
      by (auto split: if_splits)
    from Cons.IH [OF Cons.prems(1) rest_ok this] show ?thesis .
  next
    case True
    let ?w1 = "query (client (heap w r)) ''ROLLBACK'' (markTerminating r w)"
    obtain ts1 where run: "sweepLoop timeNow tmo rest ?w1 = (ts1, w')"
      and ts: "ts = MonitorRollback r tid # ts1"
      using Cons.prems(3) p True by (auto simp: Let_def split: prod.splits)
    have ext1: "extends w ?w1"
      by (simp add: extends_def query_def record_event_def markTerminating_def)
    have "registry_ok ?w1"
      using Cons.prems(1)
      by (simp add: query_def registry_ok_record_event registry_ok_markTerminating)
    moreover have "\<forall>p \<in> set rest. entry_ok ?w1 p"
      using rest_ok ext1 by (auto intro: entry_ok_extends)
    ultimately have ih: "registry_ok w' \<and> (\<forall>t \<in> set ts1. task_ok w' t) \<and> extends ?w1 w'"
      using run by (rule Cons.IH)
    have "entry_ok w (tid, r)" using Cons.prems(2) p by simp
    then have "entry_ok w' (tid, r)"
      using ext1 ih by (blast intro: entry_ok_extends)
    with ih ts ext1 show ?thesis
      by (auto intro: extends_trans)
  qed
qed

lemmas event_frame = safelyReleaseClient_def query_def registry_ok_record_event
  entry_ok_record_event extends_record_event task_ok_record_event extends_refl

lemma commit_entry_ok:
  assumes ok: "registry_ok w" and run: "handleExecuteCommit tid w = (t, w')"
  shows "registry_ok w' \<and> task_ok w' t \<and> extends w w'"
proof (cases "getTransaction tid w")
  case None
  with run have "w' = w" "task_ok w t"
    by (auto simp: handleExecuteCommit_def split: if_splits)
  with ok show ?thesis by (simp add: extends_refl)
next
  case (Some r)
  then have "entry_ok w (tid, r)"
    using ok entry_of_lookup unfolding registry_ok_def by blast
  with ok run Some show ?thesis
    by (auto simp: handleExecuteCommit_def event_frame registry_ok_remove extends_remove
        intro: entry_ok_extends split: if_splits)
qed

lemma rollback_entry_ok:
  assumes ok: "registry_ok w" and run: "handleExecuteRollback tid w = (t, w')"
  shows "registry_ok w' \<and> task_ok w' t \<and> extends w w'"
proof (cases "getTransaction tid w")
  case None
  with run have "w' = w" "task_ok w t"
    by (auto simp: handleExecuteRollback_def split: if_splits)
  with ok show ?thesis by (simp add: extends_refl)
next
  case (Some r)
  then have "entry_ok w (tid, r)"
    using ok entry_of_lookup unfolding registry_ok_def by blast
  with ok run Some show ?thesis
    by (auto simp: handleExecuteRollback_def event_frame registry_ok_remove extends_remove
        intro: entry_ok_extends split: if_splits)
qed

lemma rollback_tool_entry_ok:
  assumes ok: "registry_ok w" and run: "execute_rollback tid w = (t, w')"
  shows "registry_ok w' \<and> task_ok w' t \<and> extends w w'"
proof (cases "getTransaction tid w")
  case None
  with run have "w' = w" "task_ok w t"
    by (auto simp: execute_rollback_def split: if_splits)
  with ok show ?thesis by (simp add: extends_refl)
next
  case (Some r)
  then have "entry_ok w (tid, r)"
    using ok entry_of_lookup unfolding registry_ok_def by blast
  with ok run Some show ?thesis
    by (auto simp: execute_rollback_def event_frame registry_ok_remove extends_remove
        intro: entry_ok_extends split: if_splits)
qed

lemma entry_ok_releaseAndRemove:
  "entry_ok w p \<Longrightarrow> entry_ok (releaseAndRemove r tid w) p"
  by (rule entry_ok_extends [OF _ extends_releaseAndRemove])

lemma entry_ok_addTransaction:
  "entry_ok w p \<Longrightarrow> entry_ok (addTransaction timeNow tid c sqlText w) p"
  by (rule entry_ok_extends [OF _ extends_addTransaction])

lemma resume_ok:
  assumes ok: "registry_ok w" and tk: "task_ok w t" and run: "resume e oc t w = (t', w')"
  shows "registry_ok w' \<and> task_ok w' t' \<and> extends w w'"
proof (cases t)
  case (CleanupRollback r tid rest)
  let ?w1 = "releaseAndRemove r tid w"
  from run CleanupRollback have run: "cleanupLoop rest ?w1 = (t', w')" by simp
  have ok1: "registry_ok ?w1"
    using ok tk CleanupRollback by (simp add: registry_ok_releaseAndRemove)
  have "\<forall>p \<in> set rest. entry_ok ?w1 p"
    using tk CleanupRollback by (simp add: entry_ok_releaseAndRemove)
  from cleanupLoop_ok [OF ok1 this run] show ?thesis
    using extends_trans [OF extends_releaseAndRemove] by blast
next
  case (QueryConnect s)
  with ok run show ?thesis
    by (cases oc) (auto simp: Let_def event_frame split: if_splits)
next
  case (QueryBegin c s)
  with ok run show ?thesis by (cases oc) (auto simp: event_frame)
next
  case (QueryRun c s)
  with ok run show ?thesis by (cases oc) (auto simp: event_frame)
next
  case (QueryCommit c n)
  with ok run show ?thesis by (cases oc) (auto simp: event_frame)
next
  case (DmlConnect s tmo)
  with ok run show ?thesis
    by (cases oc) (auto simp: Let_def event_frame split: if_splits)
next
  case (DmlBegin c s tmo)
  with ok run show ?thesis by (cases oc) (auto simp: event_frame)
next
  case (DmlRun c s tmo tid)
  with ok run show ?thesis
    by (cases oc)
      (auto simp: event_frame registry_ok_addTransaction extends_addTransaction)
next
  case (DmlRollback c s)
  with ok run show ?thesis by (cases oc) (auto simp: event_frame)
next
  case (CommitCommit r tid)
  with ok tk run show ?thesis
    by (cases oc)
      (auto simp: event_frame registry_ok_releaseAndRemove extends_releaseAndRemove)
next
  case (CommitRollback r tid)
  with ok tk run show ?thesis
    by (auto simp: event_frame registry_ok_releaseAndRemove extends_releaseAndRemove)
next
  case (RollbackRollback r tid)
  with ok tk run show ?thesis
    by (cases oc)
      (auto simp: event_frame registry_ok_releaseAndRemove extends_releaseAndRemove)
next
  case (MonitorRollback r tid)
  with ok tk run show ?thesis
    by (auto simp: event_frame registry_ok_monitorFinally extends_monitorFinally)
next
  case (ToolRollback r tid)
  with ok tk run show ?thesis
    by (cases oc)
      (auto simp: event_frame registry_ok_releaseAndRemove extends_releaseAndRemove)
next
  case (Returned x)
  with ok run show ?thesis by (auto simp: extends_refl)
next
  case Threw
  with ok run show ?thesis by (auto simp: extends_refl)
next
  case Finished
  with ok run show ?thesis by (auto simp: extends_refl)
qed

lemma step_ok:
  assumes "step cfg p p'" "process_ok p"
  shows "process_ok p'"
  using assms
proof (cases rule: step.cases)
  case (read_query sqlText w t w' ts)
  with assms(2) show ?thesis
    by (auto simp: process_ok_def handleExecuteQuery_def)
next
  case (write_execute sqlText w t w' ts)
  with assms(2) show ?thesis
    by (auto simp: process_ok_def execute_dml_ddl_dcl_tcl_def handleExecuteDML_def
        split: if_splits)
next
  case (commit tid w t w' ts)
  with assms(2) commit_entry_ok [of w tid t w'] show ?thesis
    by (auto simp: process_ok_def intro: task_ok_extends)
next
  case (rollback tid w t w' ts)
  with assms(2) rollback_entry_ok [of w tid t w'] show ?thesis
    by (auto simp: process_ok_def intro: task_ok_extends)
next
  case (rollback_tool tid w t w' ts)
  with assms(2) rollback_tool_entry_ok [of w tid t w'] show ?thesis
    by (auto simp: process_ok_def intro: task_ok_extends)
next
  case (monitor timeNow w new w' ts)
  from assms(2) monitor have ok: "registry_ok w" by (simp add: process_ok_def)
  then have "\<forall>p \<in> set (activeTransactions w). entry_ok w p"
    by (simp add: registry_ok_def)
  from sweepLoop_ok [OF ok this monitor(3) [unfolded checkStuckTransactions_def]]
  show ?thesis
    using assms(2) monitor by (auto simp: process_ok_def intro: task_ok_extends)
next
  case (shutdown w t w' ts)
  from assms(2) shutdown have ok: "registry_ok w" by (simp add: process_ok_def)
  then have "\<forall>p \<in> set (activeTransactions w). entry_ok w p"
    by (simp add: registry_ok_def)
  from cleanupLoop_ok [OF ok this shutdown(3) [unfolded cleanupTransactions_def]]
  show ?thesis
    using assms(2) shutdown by (auto simp: process_ok_def intro: task_ok_extends)
next
  case (await i ts e oc w t w')
  from assms(2) await have ok: "registry_ok w" and tk: "task_ok w (ts ! i)"
    and all: "\<forall>t \<in> set ts. task_ok w t"
    by (simp_all add: process_ok_def)
  from resume_ok [OF ok tk await(5)]
  have r: "registry_ok w'" "task_ok w' t" "extends w w'" by simp_all
  have "task_ok w' u" if "u \<in> set (ts[i := t])" for u
    using that set_update_subset_insert [of ts i t] all r
    by (auto intro: task_ok_extends)
  with r await show ?thesis by (simp add: process_ok_def)
qed

lemma reachable_ok: "reachable cfg p \<Longrightarrow> process_ok p"
proof (induction rule: reachable.induct)
  case start
  show ?case by (simp add: process_ok_def registry_ok_def emptyWorld_def)
next
  case (later p p')
  then show ?case using step_ok by blast
qed

text \<open>
  So the entries of a registry the process can reach are distinct objects.
\<close>

lemma reachable_distinct_objects:
  assumes "reachable cfg (w, ts)"
  shows "distinct (map snd (activeTransactions w))"
proof -
  from assms have "process_ok (w, ts)" by (rule reachable_ok)
  then have d: "distinct (map fst (activeTransactions w))"
    and k: "\<forall>p \<in> set (activeTransactions w). tx_id (heap w (snd p)) = fst p"
    by (simp_all add: process_ok_def registry_ok_def entry_ok_def)
  from d have "distinct (activeTransactions w)"
    by (simp add: distinct_map)
  moreover have "inj_on snd (set (activeTransactions w))"
  proof (rule inj_onI)
    fix p q
    assume "p \<in> set (activeTransactions w)" "q \<in> set (activeTransactions w)" "snd p = snd q"
    with k have "fst p = fst q" by metis
    with \<open>snd p = snd q\<close> show "p = q" by (simp add: prod_eq_iff)
  qed
  ultimately show ?thesis by (simp add: distinct_map)
qed

text \<open>
  A handler run alone is one of the interleavings.
\<close>

lemma exec_reachable:
  assumes "reachable cfg (w, ts)" "i < length ts" "exec os (ts ! i, w) = (t', w')"
  shows "reachable cfg (w', ts[i := t'])"
  using assms
proof (induction os arbitrary: w ts)
  case Nil
  then show ?case by auto
next
  case (Cons p rest)
  obtain e oc where p: "p = (e, oc)" by (cases p)
  show ?case
  proof (cases "suspended (ts ! i)")
    case False
    with Cons.prems p show ?thesis by auto
  next
    case True
    obtain t1 w1 where r: "resume e oc (ts ! i) w = (t1, w1)"
      by (cases "resume e oc (ts ! i) w")
    from Cons.prems(2) True r have "step cfg (w, ts) (w1, ts[i := t1])"
      by (rule step.await)
    with Cons.prems(1) have reach: "reachable cfg (w1, ts[i := t1])"
      by (rule reachable.later)
    from Cons.prems(3) p True r have "exec rest (ts[i := t1] ! i, w1) = (t', w')"
      using Cons.prems(2) by simp
    from Cons.IH [OF reach _ this] Cons.prems(2) show ?thesis by simp
  qed
qed

lemma held_reachable: "reachable cfg0 (heldWorld, [Returned (Pending ''tx_1'' 1 15000)])"
proof -
  have "execute_dml_ddl_dcl_tcl cfg0 insertSql emptyWorld = (DmlConnect insertSql 15000, emptyWorld)"
    by (simp add: concrete)
  then have "step cfg0 (emptyWorld, []) (emptyWorld, [] @ [DmlConnect insertSql 15000])"
    by (rule step.write_execute)
  with reachable.start have r: "reachable cfg0 (emptyWorld, [DmlConnect insertSql 15000])"
    using reachable.later by fastforce
  have "exec [(env0, Resolved 7), (env0, Resolved 0), (env0, Resolved 1)]
          ([DmlConnect insertSql 15000] ! 0, emptyWorld)
        = (Returned (Pending ''tx_1'' 1 15000), heldWorld)"
    using held_run by (simp add: concrete)
  from exec_reachable [OF r _ this] show ?thesis by simp
qed

section \<open>A forced rollback racing a commit\<close>

lemma sweep_run:
  "checkStuckTransactions 20000 (transactionTimeoutMs cfg0) heldWorld
     = ([MonitorRollback 0 ''tx_1''], afterSweep)"
  by (simp add: afterSweep_def heldWorld_eq concrete)

lemma afterSweep_eq:
  "afterSweep = \<lparr>activeTransactions = [(''tx_1'', 0)],
      heap = (\<lambda>_. noTransaction)(0 := \<lparr>tx_id = ''tx_1'', client = 7, startTime = 1000,
                 sql = ''INSERT INTO t VALUES (1)'', state = Terminating, released = False\<rparr>),
      nextRef = 1,
      trace = [Acquire 7, Query 7 ''BEGIN'', Query 7 ''INSERT INTO t VALUES (1)'',
               Query 7 ''ROLLBACK'']\<rparr>"
  by (simp add: afterSweep_def heldWorld_eq concrete)

lemma commit_start_run:
  "handleExecuteCommit ''tx_1'' afterSweep = (CommitCommit 0 ''tx_1'', afterCommitStart)"
  by (simp add: afterCommitStart_def afterSweep_eq concrete)

lemma afterCommitStart_eq:
  "afterCommitStart = \<lparr>activeTransactions = [(''tx_1'', 0)],
      heap = (\<lambda>_. noTransaction)(0 := \<lparr>tx_id = ''tx_1'', client = 7, startTime = 1000,
                 sql = ''INSERT INTO t VALUES (1)'', state = Terminating, released = False\<rparr>),
      nextRef = 1,
      trace = [Acquire 7, Query 7 ''BEGIN'', Query 7 ''INSERT INTO t VALUES (1)'',
               Query 7 ''ROLLBACK'', Query 7 ''COMMIT'']\<rparr>"
  by (simp add: afterCommitStart_def afterSweep_eq concrete)

lemma forced_rollback_run:
  "resume env0 (Resolved 0) (MonitorRollback 0 ''tx_1'') afterCommitStart
     = (Finished, afterForcedRollback)"
  by (simp add: afterForcedRollback_def)

lemma afterForcedRollback_eq:
  "afterForcedRollback = \<lparr>activeTransactions = [],
      heap = (\<lambda>_. noTransaction)(0 := \<lparr>tx_id = ''tx_1'', client = 7, startTime = 1000,
                 sql = ''INSERT INTO t VALUES (1)'', state = Terminating, released = True\<rparr>),
      nextRef = 1,
      trace = [Acquire 7, Query 7 ''BEGIN'', Query 7 ''INSERT INTO t VALUES (1)'',
               Query 7 ''ROLLBACK'', Query 7 ''COMMIT'', Release 7]\<rparr>"
  by (simp add: afterForcedRollback_def afterCommitStart_eq concrete)

lemma commit_end_run:
  "resume env0 (Resolved 0) (CommitCommit 0 ''tx_1'') afterForcedRollback
     = (Returned (Committed ''tx_1''), raceWorld)"
  by (simp add: raceWorld_def)

lemma raceWorld_trace:
  "trace raceWorld = [Acquire 7, Query 7 ''BEGIN'', Query 7 ''INSERT INTO t VALUES (1)'',
               Query 7 ''ROLLBACK'', Query 7 ''COMMIT'', Release 7, Release 7]"
  by (simp add: raceWorld_def afterForcedRollback_eq concrete)

lemma sweep_reachable:
  "reachable cfg0 (afterSweep, [Returned (Pending ''tx_1'' 1 15000), MonitorRollback 0 ''tx_1''])"
proof -
  let ?t0 = "Returned (Pending ''tx_1'' 1 15000)"
  have "step cfg0 (heldWorld, [?t0]) (afterSweep, [?t0] @ [MonitorRollback 0 ''tx_1''])"
    using sweep_run by (rule step.monitor)
  with held_reachable show ?thesis
    using reachable.later by fastforce
qed

lemma commit_started_reachable:
  "reachable cfg0 (afterCommitStart,
     [Returned (Pending ''tx_1'' 1 15000), MonitorRollback 0 ''tx_1'', CommitCommit 0 ''tx_1''])"
proof -
  let ?t0 = "Returned (Pending ''tx_1'' 1 15000)"
  have "step cfg0 (afterSweep, [?t0, MonitorRollback 0 ''tx_1''])
          (afterCommitStart, [?t0, MonitorRollback 0 ''tx_1''] @ [CommitCommit 0 ''tx_1''])"
    using commit_start_run by (rule step.commit)
  with sweep_reachable show ?thesis
    using reachable.later by fastforce
qed

lemma forced_rollback_step:
  "step cfg0
     (afterCommitStart,
      [Returned (Pending ''tx_1'' 1 15000), MonitorRollback 0 ''tx_1'', CommitCommit 0 ''tx_1''])
     (afterForcedRollback,
      [Returned (Pending ''tx_1'' 1 15000), Finished, CommitCommit 0 ''tx_1''])"
proof -
  let ?t0 = "Returned (Pending ''tx_1'' 1 15000)"
  have "step cfg0 (afterCommitStart, [?t0, MonitorRollback 0 ''tx_1'', CommitCommit 0 ''tx_1''])
          (afterForcedRollback,
           [?t0, MonitorRollback 0 ''tx_1'', CommitCommit 0 ''tx_1''][1 := Finished])"
    by (rule step.await [where e = env0 and oc = "Resolved 0"])
       (simp_all add: afterForcedRollback_def)
  then show ?thesis by simp
qed

lemma commit_end_step:
  "step cfg0
     (afterForcedRollback,
      [Returned (Pending ''tx_1'' 1 15000), Finished, CommitCommit 0 ''tx_1''])
     (raceWorld,
      [Returned (Pending ''tx_1'' 1 15000), Finished, Returned (Committed ''tx_1'')])"
proof -
  let ?t0 = "Returned (Pending ''tx_1'' 1 15000)"
  have "step cfg0 (afterForcedRollback, [?t0, Finished, CommitCommit 0 ''tx_1''])
          (raceWorld, [?t0, Finished, CommitCommit 0 ''tx_1''][2 := Returned (Committed ''tx_1'')])"
    by (rule step.await [where e = env0 and oc = "Resolved 0"])
       (simp_all add: raceWorld_def)
  then show ?thesis by simp
qed

lemma race_reachable:
  "reachable cfg0 (raceWorld,
     [Returned (Pending ''tx_1'' 1 15000), Finished, Returned (Committed ''tx_1'')])"
  using commit_started_reachable forced_rollback_step commit_end_step reachable.later
  by blast

section \<open>Released entries and the registry\<close>

text \<open>
  C3. In every state the process can reach, no entry of the registry has its \<open>released\<close>
  flag set; and whenever a step of the process (one uninterrupted piece of code, ending at
  the next suspension point) sets the flag of an entry, that entry is out of the registry
  when the step ends.
\<close>

theorem released_entry_not_in_registry:
  assumes "reachable cfg (w, ts)"
  shows "(\<forall>p \<in> set (activeTransactions w). \<not> released (heap w (snd p))) \<and>
         (\<forall>w' ts' r. step cfg (w, ts) (w', ts') \<and> \<not> released (heap w r) \<and> released (heap w' r)
             \<longrightarrow> r \<notin> snd ` set (activeTransactions w'))"
proof -
  from assms have "process_ok (w, ts)" by (rule reachable_ok)
  then have now_ok: "\<forall>p \<in> set (activeTransactions w). \<not> released (heap w (snd p))"
    by (simp add: process_ok_def registry_ok_def)
  have "r \<notin> snd ` set (activeTransactions w')"
    if "step cfg (w, ts) (w', ts')" "released (heap w' r)" for w' ts' r
  proof -
    from assms that(1) have "reachable cfg (w', ts')" by (rule reachable.later)
    then have "process_ok (w', ts')" by (rule reachable_ok)
    then have "\<forall>p \<in> set (activeTransactions w'). \<not> released (heap w' (snd p))"
      by (simp add: process_ok_def registry_ok_def)
    with that(2) show ?thesis by auto
  qed
  with now_ok show ?thesis by blast
qed

text \<open>
  C3 at the world that holds \<open>tx_1\<close>, and at the step in which the monitor's forced
  rollback sets the flag.
\<close>

theorem released_entry_not_in_registry_witness:
  "reachable cfg0 (heldWorld, [Returned (Pending ''tx_1'' 1 15000)]) \<and>
   activeTransactions heldWorld = [(''tx_1'', 0)] \<and>
   \<not> released (heap heldWorld 0) \<and>
   \<not> released (heap afterCommitStart 0) \<and> released (heap afterForcedRollback 0) \<and>
   0 \<notin> snd ` set (activeTransactions afterForcedRollback)"
proof -
  have reg: "activeTransactions heldWorld = [(''tx_1'', 0)]"
    by (simp add: heldWorld_eq)
  have flip: "\<not> released (heap afterCommitStart 0)" "released (heap afterForcedRollback 0)"
    by (simp_all add: afterCommitStart_eq afterForcedRollback_eq)
  from released_entry_not_in_registry [OF held_reachable] reg
  have 1: "\<not> released (heap heldWorld 0)" by simp
  from released_entry_not_in_registry [OF commit_started_reachable] forced_rollback_step flip
  have 2: "0 \<notin> snd ` set (activeTransactions afterForcedRollback)" by blast
  from held_reachable reg flip 1 2 show ?thesis by blast
qed

section \<open>The monitor\<close>

lemma sweepLoop_frame:
  assumes "sweepLoop timeNow tmo snap w = (ts, w')"
  shows "activeTransactions w' = activeTransactions w \<and>
         set (trace w) \<subseteq> set (trace w') \<and>
         (\<forall>x. released (heap w' x) = released (heap w x) \<and>
              client (heap w' x) = client (heap w x) \<and>
              (x \<notin> snd ` set snap \<longrightarrow> heap w' x = heap w x) \<and>
              (state (heap w x) = Terminating \<longrightarrow> state (heap w' x) = Terminating))"
  using assms
proof (induction snap arbitrary: w ts)
  case Nil
  then show ?case by simp
next
  case (Cons p rest)
  obtain tid r where p: "p = (tid, r)" by (cases p)
  show ?case
  proof (cases "\<not> released (heap w r) \<and>
                timeNow - startTime (heap w r) > tmo \<and> state (heap w r) = Active")
    case False
    with Cons.prems p have "sweepLoop timeNow tmo rest w = (ts, w')"
      by (auto split: if_splits)
    from Cons.IH [OF this] show ?thesis by auto
  next
    case True
    let ?w1 = "query (client (heap w r)) ''ROLLBACK'' (markTerminating r w)"
    obtain ts1 where run: "sweepLoop timeNow tmo rest ?w1 = (ts1, w')"
      using Cons.prems p True by (auto simp: Let_def split: prod.splits)
    from Cons.IH [OF run] p show ?thesis
      by (auto simp: world_ops)
  qed
qed

lemma sweep_starts_forced_rollback:
  assumes "distinct (map snd snap)" "(tid, r) \<in> set snap"
      and "\<not> released (heap w r)" "tmo < timeNow - startTime (heap w r)"
      and "state (heap w r) = Active"
      and "sweepLoop timeNow tmo snap w = (ts, w')"
  shows "MonitorRollback r tid \<in> set ts \<and> state (heap w' r) = Terminating \<and>
         Query (client (heap w r)) ''ROLLBACK'' \<in> set (trace w')"
  using assms
proof (induction snap arbitrary: w ts)
  case Nil
  then show ?case by simp
next
  case (Cons p rest)
  obtain k a where p: "p = (k, a)" by (cases p)
  show ?case
  proof (cases "p = (tid, r)")
    case True
    let ?w1 = "query (client (heap w r)) ''ROLLBACK'' (markTerminating r w)"
    obtain ts1 where run: "sweepLoop timeNow tmo rest ?w1 = (ts1, w')"
      and ts: "ts = MonitorRollback r tid # ts1"
      using Cons.prems True by (auto simp: Let_def split: prod.splits)
    have "state (heap ?w1 r) = Terminating"
      and "Query (client (heap w r)) ''ROLLBACK'' \<in> set (trace ?w1)"
      by (simp_all add: world_ops)
    with sweepLoop_frame [OF run] ts show ?thesis by auto
  next
    case False
    with Cons.prems(2) have mem: "(tid, r) \<in> set rest" by simp
    with Cons.prems(1) p have ne: "a \<noteq> r" and dist: "distinct (map snd rest)"
      by (auto simp: image_iff)
    show ?thesis
    proof (cases "\<not> released (heap w a) \<and>
                  timeNow - startTime (heap w a) > tmo \<and> state (heap w a) = Active")
      case skip: False
      with Cons.prems(6) p have "sweepLoop timeNow tmo rest w = (ts, w')"
        by (auto split: if_splits)
      from Cons.IH [OF dist mem Cons.prems(3,4,5) this] show ?thesis .
    next
      case True
      let ?w1 = "query (client (heap w a)) ''ROLLBACK'' (markTerminating a w)"
      obtain ts1 where run: "sweepLoop timeNow tmo rest ?w1 = (ts1, w')"
        and ts: "ts = MonitorRollback a k # ts1"
        using Cons.prems(6) p True by (auto simp: Let_def split: prod.splits)
      have same: "heap ?w1 r = heap w r" using ne by (simp add: world_ops)
      from Cons.IH [OF dist mem _ _ _ run] Cons.prems(3,4,5) same ts
      show ?thesis by simp
    qed
  qed
qed

text \<open>
  The monitor on its own. In a sweep, every entry of the registry that is not released,
  older than the timeout and still \<open>active\<close> is set to \<open>terminating\<close> and has its
  \<open>ROLLBACK\<close> issued, and the forced rollback is a pending task. When that task is resumed
  and the flag is still false, the flag is set, the connection is released once and the
  entry is removed; when the flag was set in the meantime, the task releases nothing.
\<close>

lemma monitor_forced_rollback:
  assumes "distinct (map snd (activeTransactions w))" "(tid, r) \<in> set (activeTransactions w)"
      and "\<not> released (heap w r)" "tmo < timeNow - startTime (heap w r)"
      and "state (heap w r) = Active"
      and "checkStuckTransactions timeNow tmo w = (ts, w')"
  shows "MonitorRollback r tid \<in> set ts \<and> state (heap w' r) = Terminating \<and>
         Query (client (heap w r)) ''ROLLBACK'' \<in> set (trace w')"
  using sweep_starts_forced_rollback [OF assms(1-5) assms(6) [unfolded checkStuckTransactions_def]] .

lemma monitor_finally:
  "resume e oc (MonitorRollback r tid) w = (Finished, monitorFinally r tid w) \<and>
   \<not> hasTransaction tid (monitorFinally r tid w) \<and>
   released (heap (monitorFinally r tid w) r) \<and>
   trace (monitorFinally r tid w) =
     (if released (heap w r) then trace w else trace w @ [Release (client (heap w r))])"
  by (simp add: world_ops delete_keys)

text \<open>
  C1. The claim asks that under every interleaving of the monitor's forced rollback with
  an explicit commit of the same identifier the connection is released at most once. In
  the run below, which the process can take, \<open>client.release()\<close> is called twice on
  client 7: the commit handler read \<open>released\<close> before its \<open>await\<close> and does not read it
  again after it.
\<close>

theorem monitor_commit_race_releases_twice:
  "reachable cfg0 (raceWorld,
     [Returned (Pending ''tx_1'' 1 15000), Finished, Returned (Committed ''tx_1'')]) \<and>
   trace raceWorld = [Acquire 7, Query 7 ''BEGIN'', Query 7 ''INSERT INTO t VALUES (1)'',
               Query 7 ''ROLLBACK'', Query 7 ''COMMIT'', Release 7, Release 7] \<and>
   releaseCount 7 raceWorld = 2"
  using race_reachable raceWorld_trace by (simp add: releaseCount_def)

end
